theory Spec2Isabelle
  imports Main "HOL-Library.Sublist"
begin

section \<open>The tree flattener (\<open>compactFlattenedList\<close>, util.ts lines 64-80)\<close>

text \<open>
  \<^verbatim>\<open>type DeepListItem<T> = null | T | DeepListItem<T>[]\<close>: a node of the nested result is
  \<open>null\<close>, a single item, or an array of nodes.  An item is a value that is not an
  array (\<open>Array.isArray\<close> tells the two apart).
\<close>

datatype 'a DeepListItem = Null | Item 'a | Arr "'a DeepListItem list"

text \<open>
  The source tests nodes with \<^verbatim>\<open>if (list)\<close> and \<^verbatim>\<open>if (item)\<close>, that is by JavaScript
  truthiness, not by comparison with \<open>null\<close>.  \<open>null\<close> is falsy, every array (also the
  empty one) is truthy, and an item is truthy or falsy according to its own type; the
  truthiness of the item type \<open>T\<close> is the parameter \<open>t\<close>.  For strings, the only falsy
  value is the empty string.
\<close>

fun js_truthy :: "('a \<Rightarrow> bool) \<Rightarrow> 'a DeepListItem \<Rightarrow> bool" where
  "js_truthy t Null = False"
| "js_truthy t (Item x) = t x"
| "js_truthy t (Arr xs) = True"

definition truthy_string :: "string \<Rightarrow> bool" where
  "truthy_string s = (s \<noteq> [])"

text \<open>
  \<open>populateResult\<close> pushes onto the captured array \<open>result\<close>; the model passes the array
  in and returns it.  \<open>populateResult_for\<close> is the \<^verbatim>\<open>for (const item of list)\<close> loop.
\<close>

fun populateResult :: "('a \<Rightarrow> bool) \<Rightarrow> 'a DeepListItem \<Rightarrow> 'a list \<Rightarrow> 'a list"
  and populateResult_for :: "('a \<Rightarrow> bool) \<Rightarrow> 'a DeepListItem list \<Rightarrow> 'a list \<Rightarrow> 'a list"
where
  "populateResult t Null result = result"
| "populateResult t (Item x) result = (if t x then result @ [x] else result)"
| "populateResult t (Arr xs) result =
     (if length xs > 0 then populateResult_for t xs result else result)"
| "populateResult_for t [] result = result"
| "populateResult_for t (item # items) result =
     populateResult_for t items
       (if js_truthy t item then populateResult t item result else result)"

definition compactFlattenedList :: "('a \<Rightarrow> bool) \<Rightarrow> 'a DeepListItem list \<Rightarrow> 'a list" where
  "compactFlattenedList t list = populateResult t (Arr list) []"

text \<open>
  The leaves of a nested value in depth-first, left-to-right order, \<open>null\<close> dropped and
  nothing else: what the specification's contract for the flattener describes.
\<close>

fun leaves :: "'a DeepListItem \<Rightarrow> 'a list" where
  "leaves Null = []"
| "leaves (Item x) = [x]"
| "leaves (Arr xs) = concat (map leaves xs)"

fun is_nested :: "'a DeepListItem \<Rightarrow> bool" where
  "is_nested (Arr xs) = True"
| "is_nested _ = False"

text \<open>The non-null elements of a sequence, in order (its nested sequences are skipped).\<close>

fun items_of :: "'a DeepListItem list \<Rightarrow> 'a list" where
  "items_of [] = []"
| "items_of (Item x # xs) = x # items_of xs"
| "items_of (Null # xs) = items_of xs"
| "items_of (Arr ys # xs) = items_of xs"

section \<open>The file system the walker runs against\<close>

text \<open>
  The walker reaches the file system through Node's \<open>fs.promises\<close> (\<open>readdir\<close>, \<open>stat\<close>,
  \<open>rm\<close>), through \<open>path\<close> (\<open>resolve\<close>, \<open>extname\<close>) and through \<open>isBinaryFile\<close>.  None of
  them is code of the repository; this section models them as Node and POSIX document
  them, on an explicit file system: a store from canonical paths to entries.

  A path is the list of its components below the file-system root; the string the
  source handles is the components joined by \<open>/\<close>.  \<^verbatim>\<open>path.resolve(dirPath, child)\<close> of an
  absolute directory path and a name returned by \<open>readdir\<close> appends the name.
\<close>

type_synonym name = string
type_synonym path = "name list"

definition path_string :: "path \<Rightarrow> string" where
  "path_string p = (if p = [] then ''/'' else concat (map (\<lambda>n. ''/'' @ n) p))"

definition truthy_path :: "path \<Rightarrow> bool" where
  "truthy_path p = truthy_string (path_string p)"

text \<open>
  Node's \<^verbatim>\<open>path.extname\<close> reads the last component: the text from its last dot on, and
  the empty string when the component has no dot, when its only dot is its first
  character, or when the component is \<open>..\<close>.
\<close>

definition name_extname :: "name \<Rightarrow> string" where
  "name_extname n =
     (let ext = CHR ''.'' # rev (takeWhile (\<lambda>c. c \<noteq> CHR ''.'') (rev n)) in
      if CHR ''.'' \<notin> set n then ''''
      else if length ext = length n then ''''
      else if n = ''..'' then ''''
      else ext)"

definition extname :: "path \<Rightarrow> string" where
  "extname p = (if p = [] then '''' else name_extname (last p))"

datatype errno = ENOENT | ENOTDIR | EACCES | ELOOP | ENAMETOOLONG | ENOTFILE

text \<open>
  An entry of the file system, stored under its canonical path:
  \<^item> a regular file, with the outcome of sniffing its content (\<open>None\<close>: the content
    cannot be read);
  \<^item> a directory, with its read and write permission and the names \<open>readdir\<close> lists, in
    the order it lists them;
  \<^item> a symbolic link, with the absolute path it points to;
  \<^item> anything else (a socket, a FIFO, a device).
\<close>

datatype entry =
    RegularFile "bool option"
  | Directory bool bool "name list"
  | SymbolicLink path
  | Special

type_synonym fs = "path \<Rightarrow> entry option"

text \<open>
  The operating system refuses a path longer than \<open>PATH_MAX\<close> bytes (\<open>ENAMETOOLONG\<close>) and
  a resolution through more than \<open>MAXSYMLINKS\<close> symbolic links (\<open>ELOOP\<close>); the values are
  those of macOS.  The first bound is what ends a walk that follows a symbolic link
  back up to a directory it came through.
\<close>

definition PATH_MAX :: nat where
  "PATH_MAX = 1024"

definition MAXSYMLINKS :: nat where
  "MAXSYMLINKS = 32"

definition path_length :: "path \<Rightarrow> nat" where
  "path_length p = sum_list (map (\<lambda>n. Suc (length n)) p)"

text \<open>
  Path resolution as the operating system does it: component by component from the
  root, following every symbolic link it meets (at most \<open>hops\<close> of them).  A link in the
  last component is followed when \<open>follow\<close> is set (as \<open>stat\<close> and \<open>open\<close> do) and is the
  result itself otherwise (as \<open>lstat\<close> and \<open>unlink\<close> do).  The result is the canonical
  path of the entry the path names.
\<close>

fun resolve :: "fs \<Rightarrow> bool \<Rightarrow> nat \<Rightarrow> path \<Rightarrow> path \<Rightarrow> errno + path" where
  "resolve fs follow hops cur [] = Inr cur"
| "resolve fs follow hops cur (n # rest) =
     (case fs (cur @ [n]) of
        None \<Rightarrow> Inl ENOENT
      | Some (SymbolicLink target) \<Rightarrow>
          if rest = [] \<and> \<not> follow then Inr (cur @ [n])
          else (case hops of
                  0 \<Rightarrow> Inl ELOOP
                | Suc h \<Rightarrow> resolve fs follow h [] (target @ rest))
      | Some (Directory r w ns) \<Rightarrow> resolve fs follow hops (cur @ [n]) rest
      | Some e \<Rightarrow> if rest = [] then Inr (cur @ [n]) else Inl ENOTDIR)"

definition namei :: "fs \<Rightarrow> bool \<Rightarrow> path \<Rightarrow> errno + path" where
  "namei fs follow p =
     (if PATH_MAX < path_length p then Inl ENAMETOOLONG
      else resolve fs follow MAXSYMLINKS [] p)"

text \<open>
  \<^verbatim>\<open>fs.promises.stat\<close> follows symbolic links: it describes the entry the path resolves
  to, so the \<open>Stats\<close> it returns never answer \<open>isSymbolicLink()\<close> with true.  Only
  \<open>lstat\<close>, which the walker does not call, reports a link.
\<close>

datatype stats = Stats (isFile: bool) (isDirectory: bool) (isSymbolicLink: bool)

fun stats_of :: "entry \<Rightarrow> stats" where
  "stats_of (RegularFile c) = Stats True False False"
| "stats_of (Directory r w ns) = Stats False True False"
| "stats_of (SymbolicLink target) = Stats False False True"
| "stats_of Special = Stats False False False"

definition stat :: "fs \<Rightarrow> path \<Rightarrow> errno + stats" where
  "stat fs p =
     (case namei fs True p of
        Inl e \<Rightarrow> Inl e
      | Inr q \<Rightarrow> (case fs q of None \<Rightarrow> Inl ENOENT | Some e \<Rightarrow> Inr (stats_of e)))"

definition lstat :: "fs \<Rightarrow> path \<Rightarrow> errno + stats" where
  "lstat fs p =
     (case namei fs False p of
        Inl e \<Rightarrow> Inl e
      | Inr q \<Rightarrow> (case fs q of None \<Rightarrow> Inl ENOENT | Some e \<Rightarrow> Inr (stats_of e)))"

definition readdir :: "fs \<Rightarrow> path \<Rightarrow> errno + name list" where
  "readdir fs p =
     (case namei fs True p of
        Inl e \<Rightarrow> Inl e
      | Inr q \<Rightarrow>
          (case fs q of
             None \<Rightarrow> Inl ENOENT
           | Some (Directory r w ns) \<Rightarrow> if r then Inr ns else Inl EACCES
           | Some e \<Rightarrow> Inl ENOTDIR))"

text \<open>
  \<^verbatim>\<open>isBinaryFile\<close> of the package \<open>isbinaryfile\<close>: it stats the path (following links),
  refuses what is not a regular file, and reads the start of the content.  The
  specification takes the inspection as a pure predicate of the file's bytes; the
  entry of a regular file carries the predicate's answer.
\<close>

definition isBinaryFile :: "fs \<Rightarrow> path \<Rightarrow> errno + bool" where
  "isBinaryFile fs p =
     (case namei fs True p of
        Inl e \<Rightarrow> Inl e
      | Inr q \<Rightarrow>
          (case fs q of
             None \<Rightarrow> Inl ENOENT
           | Some (RegularFile c) \<Rightarrow> (case c of None \<Rightarrow> Inl EACCES | Some b \<Rightarrow> Inr b)
           | Some e \<Rightarrow> Inl ENOTFILE))"

text \<open>
  \<^verbatim>\<open>fs.promises.rm(p, { recursive: true, force: true })\<close>: the entry the path names is
  removed from the directory that holds it (a link in the last component is removed
  itself, not followed); with \<open>recursive\<close>, a directory goes with everything below it.
  With \<open>force\<close>, a path that does not exist is no error; a directory that cannot be
  written is one.
\<close>

fun is_directory :: "entry option \<Rightarrow> bool" where
  "is_directory (Some (Directory r w ns)) = True"
| "is_directory _ = False"

definition unlink :: "fs \<Rightarrow> path \<Rightarrow> fs" where
  "unlink fs q =
     (\<lambda>x. if x = q \<or> (is_directory (fs q) \<and> prefix q x) then None
          else if x = butlast q then
            (case fs x of
               Some (Directory r w ns) \<Rightarrow> Some (Directory r w (removeAll (last q) ns))
             | e \<Rightarrow> e)
          else fs x)"

definition rm :: "fs \<Rightarrow> path \<Rightarrow> errno + fs" where
  "rm fs p =
     (case namei fs False p of
        Inl e \<Rightarrow> if e = ENOENT then Inr fs else Inl e
      | Inr q \<Rightarrow>
          if q = [] then Inl EACCES
          else
            (case fs (butlast q) of
               Some (Directory r w ns) \<Rightarrow> if w then Inr (unlink fs q) else Inl EACCES
             | e \<Rightarrow> Inl EACCES))"

section \<open>The bundle walker (\<open>walk\<close>, util.ts lines 105-189)\<close>

definition getFilePathIfBinary :: "fs \<Rightarrow> path \<Rightarrow> errno + path DeepListItem" where
  "getFilePathIfBinary fs filePath =
     (case isBinaryFile fs filePath of
        Inl e \<Rightarrow> Inl e
      | Inr b \<Rightarrow> Inr (if b then Item filePath else Null))"

lemma stat_path_length: "stat fs p = Inr st \<Longrightarrow> path_length p \<le> PATH_MAX"
  by (auto simp: stat_def namei_def split: if_splits)

text \<open>
  \<open>walkAsync\<close> is the inner \<open>_walkAsync\<close>, \<open>walk_child\<close> the callback it maps over the
  children, and \<open>walk_children\<close> the \<^verbatim>\<open>Promise.all(children.map(...))\<close>.  \<open>Promise.all\<close>
  collects the results in the order of the listing and rejects with the first
  rejection.  The callbacks are asynchronous and run concurrently.  These three
  functions are the walk in which each callback has run to its end before the next
  one completes its first operation: the callbacks one after the other in the order
  of the listing, each on the file system its predecessor left, up to the first that
  fails.  That is one of the executions the source admits (lemma
  \<open>walk_is_an_execution\<close>); all of them, in whatever order the concurrent operations
  complete, are the subject of the next section.  Every function returns the file
  system it leaves beside its result, and an error in place of both.

  The recursion ends because each call of \<open>walkAsync\<close> below the first is on a longer
  path that \<open>stat\<close> has accepted, hence on one of at most \<open>PATH_MAX\<close> bytes.
\<close>

function walkAsync :: "fs \<Rightarrow> path \<Rightarrow> errno + (path DeepListItem list \<times> fs)"
  and walk_children :: "fs \<Rightarrow> path \<Rightarrow> name list \<Rightarrow> errno + (path DeepListItem list \<times> fs)"
  and walk_child :: "fs \<Rightarrow> path \<Rightarrow> name \<Rightarrow> errno + (path DeepListItem \<times> fs)"
where
  "walkAsync fs dirPath =
     (case readdir fs dirPath of
        Inl e \<Rightarrow> Inl e
      | Inr children \<Rightarrow> walk_children fs dirPath children)"
| "walk_children fs dirPath [] = Inr ([], fs)"
| "walk_children fs dirPath (child # rest) =
     (case walk_child fs dirPath child of
        Inl e \<Rightarrow> Inl e
      | Inr (r, fs') \<Rightarrow>
          (case walk_children fs' dirPath rest of
             Inl e \<Rightarrow> Inl e
           | Inr (rs, fs'') \<Rightarrow> Inr (r # rs, fs'')))"
| "walk_child fs dirPath child =
     (let filePath = dirPath @ [child] in
      case stat fs filePath of
        Inl e \<Rightarrow> Inl e
      | Inr st \<Rightarrow>
          if isFile st then
            (if extname filePath = ''.cstemp'' then
               (case rm fs filePath of
                  Inl e \<Rightarrow> Inl e
                | Inr fs' \<Rightarrow> Inr (Null, fs'))
             else
               (case getFilePathIfBinary fs filePath of
                  Inl e \<Rightarrow> Inl e
                | Inr r \<Rightarrow> Inr (r, fs)))
          else if isDirectory st \<and> \<not> isSymbolicLink st then
            (case walkAsync fs filePath of
               Inl e \<Rightarrow> Inl e
             | Inr (walkResult, fs') \<Rightarrow>
                 Inr (Arr (if extname filePath = ''.app'' \<or> extname filePath = ''.framework''
                           then walkResult @ [Item filePath] else walkResult), fs'))
          else Inr (Null, fs))"
  by pat_completeness auto
termination
  apply (relation "inv_image (less_than <*lex*> less_than <*lex*> less_than)
      (\<lambda>x. case x of
          Inl (fs, p) \<Rightarrow> (Suc PATH_MAX - path_length p, 2::nat, 0::nat)
        | Inr (Inl (fs, p, cs)) \<Rightarrow> (Suc PATH_MAX - path_length p, 1, length cs)
        | Inr (Inr (fs, p, c)) \<Rightarrow> (Suc PATH_MAX - path_length p, 0, 0))")
  apply (auto dest!: stat_path_length simp: path_length_def)
  done

definition walk :: "fs \<Rightarrow> path \<Rightarrow> errno + (path list \<times> fs)" where
  "walk fs dirPath =
     (case walkAsync fs dirPath of
        Inl e \<Rightarrow> Inl e
      | Inr (allPaths, fs') \<Rightarrow> Inr (compactFlattenedList truthy_path allPaths, fs'))"

declare walkAsync.simps [simp del] walk_child.simps [simp del]

section \<open>The walker with its callbacks run concurrently\<close>

text \<open>
  \<^verbatim>\<open>children.map(async (child) => ...)\<close> starts the callback of every child before any
  of them goes on: each runs up to its first \<open>await\<close>, the \<open>stat\<close> of its path, and hands
  back a promise.  From then on a callback advances whenever the operation it awaits
  completes, and the operations of different callbacks complete in an order the code
  does not control.  \<open>Promise.all\<close> is fulfilled once every callback has returned, with
  their results in the order of the listing; it is rejected as soon as one callback
  throws, with the error of that callback, and the other callbacks run on all the
  same, for nothing cancels them.

  An operation the walker awaits, and the event of its completion: the operation, the
  path it was called with, and the error if it failed.
\<close>

datatype operation = OpReaddir | OpStat | OpRm | OpIsBinaryFile

type_synonym event = "operation \<times> path \<times> errno option"

datatype 'a promise = Pending | Fulfilled 'a | Rejected errno

fun rejection_of :: "'a promise \<Rightarrow> errno option" where
  "rejection_of (Rejected e) = Some e"
| "rejection_of _ = None"

text \<open>
  A walk in progress is a tree.  A call of \<open>_walkAsync\<close> awaits its \<open>readdir\<close> (\<open>Listing\<close>),
  has failed at it (\<open>ListingFailed\<close>), or awaits \<open>Promise.all\<close> (\<open>Joining\<close>): then it holds
  the error \<open>Promise.all\<close> was rejected with, if it has been rejected, and the callbacks
  in the order of the listing.  A callback awaits \<open>stat\<close>, \<open>rm\<close>, \<open>isBinaryFile\<close> or the
  nested call of \<open>_walkAsync\<close> (\<open>AwaitBinary\<close> is the callback inside \<open>getFilePathIfBinary\<close>),
  or it has returned its contribution or thrown.
\<close>

datatype call =
    Listing path
  | ListingFailed errno
  | Joining "errno option" "callback list"
and callback =
    AwaitStat path
  | AwaitRm path
  | AwaitBinary path
  | AwaitWalk path call
  | Returned "path DeepListItem"
  | Thrown errno

text \<open>
  The promise a call of \<open>_walkAsync\<close>, a callback, and \<open>Promise.all\<close> of a list of callbacks
  that has not been rejected have returned.  A callback awaiting a nested call settles
  as the call does, the path of a bundle directory pushed onto its result.
\<close>

fun call_promise :: "call \<Rightarrow> path DeepListItem list promise"
  and callback_promise :: "callback \<Rightarrow> path DeepListItem promise"
  and all_promise :: "callback list \<Rightarrow> path DeepListItem list promise"
where
  "call_promise (Listing dirPath) = Pending"
| "call_promise (ListingFailed e) = Rejected e"
| "call_promise (Joining rejection callbacks) =
     (case rejection of Some e \<Rightarrow> Rejected e | None \<Rightarrow> all_promise callbacks)"
| "callback_promise (AwaitStat filePath) = Pending"
| "callback_promise (AwaitRm filePath) = Pending"
| "callback_promise (AwaitBinary filePath) = Pending"
| "callback_promise (AwaitWalk filePath c) =
     (case call_promise c of
        Pending \<Rightarrow> Pending
      | Rejected e \<Rightarrow> Rejected e
      | Fulfilled walkResult \<Rightarrow>
          Fulfilled (Arr (if extname filePath = ''.app'' \<or> extname filePath = ''.framework''
                          then walkResult @ [Item filePath] else walkResult)))"
| "callback_promise (Returned r) = Fulfilled r"
| "callback_promise (Thrown e) = Rejected e"
| "all_promise [] = Fulfilled []"
| "all_promise (cb # cbs) =
     (case callback_promise cb of
        Fulfilled r \<Rightarrow> (case all_promise cbs of Fulfilled rs \<Rightarrow> Fulfilled (r # rs) | _ \<Rightarrow> Pending)
      | _ \<Rightarrow> Pending)"

text \<open>
  One operation completes: the one awaited at position \<open>pos\<close> of the tree, the indices
  of the callbacks on the way down to it.  The operation acts on the file system as it
  is at that moment (every operation is taken to act at once, when it completes), the
  callback runs on to its next \<open>await\<close> or to its end, and if the operation failed,
  every enclosing \<open>Promise.all\<close> that has not been rejected before is rejected with its
  error: Node runs the reactions of the promises to the end before it handles the
  next completion.  Nothing is awaited at a position outside the tree or at a callback
  that has returned or thrown; the step is \<open>None\<close> there.
\<close>

fun step_call :: "nat list \<Rightarrow> fs \<Rightarrow> call \<Rightarrow> (call \<times> fs \<times> event) option"
  and step_at :: "nat \<Rightarrow> nat list \<Rightarrow> fs \<Rightarrow> callback list \<Rightarrow> (callback list \<times> fs \<times> event) option"
  and step_callback :: "nat list \<Rightarrow> fs \<Rightarrow> callback \<Rightarrow> (callback \<times> fs \<times> event) option"
where
  "step_call pos fs (Listing dirPath) =
     (if pos = [] then
        (case readdir fs dirPath of
           Inl e \<Rightarrow> Some (ListingFailed e, fs, (OpReaddir, dirPath, Some e))
         | Inr children \<Rightarrow>
             Some (Joining None (map (\<lambda>child. AwaitStat (dirPath @ [child])) children),
                   fs, (OpReaddir, dirPath, None)))
      else None)"
| "step_call pos fs (ListingFailed e) = None"
| "step_call [] fs (Joining rejection callbacks) = None"
| "step_call (i # pos) fs (Joining rejection callbacks) =
     (case step_at i pos fs callbacks of
        None \<Rightarrow> None
      | Some (callbacks', fs', ev) \<Rightarrow>
          Some (Joining
                  (case rejection of
                     Some e \<Rightarrow> Some e
                   | None \<Rightarrow> rejection_of (callback_promise (callbacks' ! i)))
                  callbacks', fs', ev))"
| "step_at i pos fs [] = None"
| "step_at 0 pos fs (cb # cbs) =
     (case step_callback pos fs cb of
        None \<Rightarrow> None
      | Some (cb', fs', ev) \<Rightarrow> Some (cb' # cbs, fs', ev))"
| "step_at (Suc i) pos fs (cb # cbs) =
     (case step_at i pos fs cbs of
        None \<Rightarrow> None
      | Some (cbs', fs', ev) \<Rightarrow> Some (cb # cbs', fs', ev))"
| "step_callback pos fs (AwaitStat filePath) =
     (if pos = [] then
        (case stat fs filePath of
           Inl e \<Rightarrow> Some (Thrown e, fs, (OpStat, filePath, Some e))
         | Inr st \<Rightarrow>
             Some (if isFile st then
                     (if extname filePath = ''.cstemp'' then AwaitRm filePath
                      else AwaitBinary filePath)
                   else if isDirectory st \<and> \<not> isSymbolicLink st then
                     AwaitWalk filePath (Listing filePath)
                   else Returned Null,
                   fs, (OpStat, filePath, None)))
      else None)"
| "step_callback pos fs (AwaitRm filePath) =
     (if pos = [] then
        (case rm fs filePath of
           Inl e \<Rightarrow> Some (Thrown e, fs, (OpRm, filePath, Some e))
         | Inr fs' \<Rightarrow> Some (Returned Null, fs', (OpRm, filePath, None)))
      else None)"
| "step_callback pos fs (AwaitBinary filePath) =
     (if pos = [] then
        (case getFilePathIfBinary fs filePath of
           Inl e \<Rightarrow> Some (Thrown e, fs, (OpIsBinaryFile, filePath, Some e))
         | Inr r \<Rightarrow> Some (Returned r, fs, (OpIsBinaryFile, filePath, None)))
      else None)"
| "step_callback pos fs (AwaitWalk filePath c) =
     (case step_call pos fs c of
        None \<Rightarrow> None
      | Some (c', fs', ev) \<Rightarrow> Some (AwaitWalk filePath c', fs', ev))"
| "step_callback pos fs (Returned r) = None"
| "step_callback pos fs (Thrown e) = None"

text \<open>
  An execution: the operations complete in the order of the schedule, a list of
  positions, and the events are appended to the trace.  A schedule that names a
  position where nothing is awaited is not an execution.  \<open>walk(dirPath)\<close> on the file
  system \<open>fs\<close> starts from \<open>(Listing dirPath, fs, [])\<close>, and its own promise settles as
  that of the outermost call does, the result flattened.
\<close>

fun run :: "nat list list \<Rightarrow> call \<times> fs \<times> event list \<Rightarrow> (call \<times> fs \<times> event list) option" where
  "run [] s = Some s"
| "run (pos # sched) (c, fs, tr) =
     (case step_call pos fs c of
        None \<Rightarrow> None
      | Some (c', fs', ev) \<Rightarrow> run sched (c', fs', tr @ [ev]))"

definition walk_promise :: "call \<Rightarrow> path list promise" where
  "walk_promise c =
     (case call_promise c of
        Pending \<Rightarrow> Pending
      | Rejected e \<Rightarrow> Rejected e
      | Fulfilled allPaths \<Rightarrow> Fulfilled (compactFlattenedList truthy_path allPaths))"

text \<open>
  \<open>executes c fs c' fs'\<close>: some execution leads from the tree \<open>c\<close> on the file system \<open>fs\<close>
  to the tree \<open>c'\<close> on the file system \<open>fs'\<close>.
\<close>

definition executes :: "call \<Rightarrow> fs \<Rightarrow> call \<Rightarrow> fs \<Rightarrow> bool" where
  "executes c fs c' fs' = (\<exists>sched tr'. run sched (c, fs, []) = Some (c', fs', tr'))"

text \<open>The error of the first operation of a trace that failed.\<close>

fun first_failure :: "event list \<Rightarrow> errno option" where
  "first_failure [] = None"
| "first_failure ((opn, p, r) # evs) = (case r of Some e \<Rightarrow> Some e | None \<Rightarrow> first_failure evs)"

text \<open>
  What every tree of an execution satisfies: a \<open>Promise.all\<close> that has not been rejected
  has no rejected callback.
\<close>

fun consistent_call :: "call \<Rightarrow> bool"
  and consistent_callback :: "callback \<Rightarrow> bool"
  and consistent_all :: "callback list \<Rightarrow> bool"
where
  "consistent_call (Joining rejection callbacks) =
     (consistent_all callbacks
      \<and> (rejection = None \<longrightarrow> list_all (\<lambda>cb. rejection_of (callback_promise cb) = None) callbacks))"
| "consistent_call _ = True"
| "consistent_callback (AwaitWalk filePath c) = consistent_call c"
| "consistent_callback _ = True"
| "consistent_all [] = True"
| "consistent_all (cb # cbs) = (consistent_callback cb \<and> consistent_all cbs)"

section \<open>Notions the properties of the walker are stated with\<close>

text \<open>
  A file system lists no name twice in a directory, as every real \<open>readdir\<close> guarantees.
\<close>

definition listings_distinct :: "fs \<Rightarrow> bool" where
  "listings_distinct fs = (\<forall>p r w ns. fs p = Some (Directory r w ns) \<longrightarrow> distinct ns)"



text \<open>
  What a walk can do to the file system: \<open>shrinks fs fs'\<close> when \<open>fs'\<close> is \<open>fs\<close> with some
  entries removed (and the listings of directories shortened), \<open>keeps_directories\<close> when
  every directory of \<open>fs\<close> is still a directory of \<open>fs'\<close>.
\<close>

definition shrinks :: "fs \<Rightarrow> fs \<Rightarrow> bool" where
  "shrinks fs fs' =
     (\<forall>x. fs' x = None \<or> fs' x = fs x
          \<or> (\<exists>r w ns ns'. fs x = Some (Directory r w ns) \<and> fs' x = Some (Directory r w ns')))"

definition keeps_directories :: "fs \<Rightarrow> fs \<Rightarrow> bool" where
  "keeps_directories fs fs' =
     (\<forall>q r w. (\<exists>ns. fs q = Some (Directory r w ns)) \<longrightarrow> (\<exists>ns. fs' q = Some (Directory r w ns)))"


text \<open>
  A file system without symbolic links; and every entry on the way from \<open>cur\<close> down to
  the last component of \<open>rest\<close> (from the root down to \<open>p\<close>, \<open>p\<close> included, for
  \<open>dirs_upto\<close>) is a directory.
\<close>

definition no_links :: "fs \<Rightarrow> bool" where
  "no_links fs = (\<forall>x t. fs x \<noteq> Some (SymbolicLink t))"

definition dirs_between :: "fs \<Rightarrow> path \<Rightarrow> path \<Rightarrow> bool" where
  "dirs_between fs cur rest =
     (\<forall>ys. ys \<noteq> [] \<and> strict_prefix ys rest \<longrightarrow> is_directory (fs (cur @ ys)))"

definition dirs_upto :: "fs \<Rightarrow> path \<Rightarrow> bool" where
  "dirs_upto fs p = (\<forall>ys. ys \<noteq> [] \<and> prefix ys p \<longrightarrow> is_directory (fs ys))"

section \<open>Example file systems\<close>



text \<open>A bundle whose binary cannot be read.\<close>

definition fs_unreadable :: fs where
  "fs_unreadable = map_of
    [([], Directory True True [''build'']),
     ([''build''], Directory True True [''App.app'']),
     ([''build'', ''App.app''], Directory True True [''Info.plist'', ''AppBinary'']),
     ([''build'', ''App.app'', ''Info.plist''], RegularFile (Some False)),
     ([''build'', ''App.app'', ''AppBinary''], RegularFile None)]"

text \<open>A bundle with a binary and the temporary file an earlier signing left beside it.\<close>

definition fs_leftover :: fs where
  "fs_leftover = map_of
    [([], Directory True True [''App.app'']),
     ([''App.app''], Directory True True [''App'', ''App.cstemp'']),
     ([''App.app'', ''App''], RegularFile (Some True)),
     ([''App.app'', ''App.cstemp''], RegularFile (Some True))]"


text \<open>
  A framework bundle in the layout macOS gives it: the binary lives in \<open>Versions/A\<close>,
  \<open>Versions/Current\<close> is a symbolic link to \<open>A\<close>, and \<open>Lib\<close> at the top of the bundle is a
  symbolic link to \<open>Versions/Current/Lib\<close>.  (The links of a real bundle are relative;
  the targets here are the absolute paths they stand for.)
\<close>

definition fs_links :: fs where
  "fs_links = map_of
    [([], Directory True True [''Frameworks'']),
     ([''Frameworks''], Directory True True [''Lib.framework'']),
     ([''Frameworks'', ''Lib.framework''], Directory True True [''Lib'', ''Versions'']),
     ([''Frameworks'', ''Lib.framework'', ''Lib''],
        SymbolicLink [''Frameworks'', ''Lib.framework'', ''Versions'', ''Current'', ''Lib'']),
     ([''Frameworks'', ''Lib.framework'', ''Versions''], Directory True True [''A'', ''Current'']),
     ([''Frameworks'', ''Lib.framework'', ''Versions'', ''A''], Directory True True [''Lib'']),
     ([''Frameworks'', ''Lib.framework'', ''Versions'', ''A'', ''Lib''], RegularFile (Some True)),
     ([''Frameworks'', ''Lib.framework'', ''Versions'', ''Current''],
        SymbolicLink [''Frameworks'', ''Lib.framework'', ''Versions'', ''A''])]"

text \<open>A bundle with a stale artifact and a symbolic link to it.\<close>

definition fs_stale_link :: fs where
  "fs_stale_link = map_of
    [([], Directory True True [''App.app'']),
     ([''App.app''], Directory True True [''helper'', ''helper.cstemp'']),
     ([''App.app'', ''helper''], SymbolicLink [''App.app'', ''helper.cstemp'']),
     ([''App.app'', ''helper.cstemp''], RegularFile (Some True))]"

text \<open>
  A bundle with two broken symbolic links: the target of \<open>helper\<close> does not exist, and
  \<open>loop\<close> points to itself.
\<close>

definition fs_two_failures :: fs where
  "fs_two_failures = map_of
    [([], Directory True True [''App.app'']),
     ([''App.app''], Directory True True [''helper'', ''loop'']),
     ([''App.app'', ''helper''], SymbolicLink [''App.app'', ''missing'']),
     ([''App.app'', ''loop''], SymbolicLink [''App.app'', ''loop''])]"

lemmas fs_eval =
  Let_def walk_def walkAsync.simps walk_child.simps stat_def lstat_def namei_def
  PATH_MAX_def MAXSYMLINKS_def path_length_def readdir_def extname_def name_extname_def
  rm_def unlink_def getFilePathIfBinary_def isBinaryFile_def compactFlattenedList_def
  truthy_path_def truthy_string_def path_string_def

section \<open>Properties of the flattener\<close>

lemma falsy_leaves: "\<not> js_truthy t item \<Longrightarrow> filter t (leaves item) = []"
  by (cases item) auto

lemma populateResult_leaves:
  "populateResult t x acc = acc @ filter t (leaves x)"
  "populateResult_for t xs acc = acc @ filter t (concat (map leaves xs))"
  by (induction t x acc and t xs acc rule: populateResult_populateResult_for.induct)
     (auto simp: falsy_leaves)

lemma compactFlattenedList_leaves:
  "compactFlattenedList t xs = filter t (concat (map leaves xs))"
  by (simp add: compactFlattenedList_def populateResult_leaves)

lemma flat_items_of:
  "\<forall>i\<in>set xs. \<not> is_nested i \<Longrightarrow> concat (map leaves xs) = items_of xs"
  by (induction xs rule: items_of.induct) auto

text \<open>
  C3, as the claim states it, fails: the flattener drops every falsy leaf, not only
  \<open>null\<close>.  With strings as items, the empty string is a non-null leaf that the
  output lacks.
\<close>

theorem compactFlattenedList_drops_falsy_leaf:
  "compactFlattenedList truthy_string
       [Null, Item ''a'', Arr [Item '''', Arr [Item ''b'']], Item ''a'']
     = [''a'', ''b'', ''a'']
   \<and> leaves (Arr [Null, Item ''a'', Arr [Item '''', Arr [Item ''b'']], Item ''a''])
     = [''a'', '''', ''b'', ''a'']
   \<and> compactFlattenedList truthy_string
       [Null, Item ''a'', Arr [Item '''', Arr [Item ''b'']], Item ''a'']
     \<noteq> leaves (Arr [Null, Item ''a'', Arr [Item '''', Arr [Item ''b'']], Item ''a''])"
  by (simp add: compactFlattenedList_def truthy_string_def)

text \<open>
  C3, amended: for every nested input, \<open>compactFlattenedList\<close> returns exactly the truthy
  leaf items (the leaves that are neither \<open>null\<close> nor falsy) in depth-first
  left-to-right order with all nesting removed; the empty input gives the empty
  output, and every truthy item occurs in the output as often as among the leaves
  (duplicates are kept).
\<close>

theorem compactFlattenedList_truthy_leaves:
  "compactFlattenedList t list = filter t (leaves (Arr list))
   \<and> compactFlattenedList t [] = []
   \<and> count_list (compactFlattenedList t list) x
       = (if t x then count_list (leaves (Arr list)) x else 0)"
proof -
  have eq: "compactFlattenedList t list = filter t (leaves (Arr list))"
    by (simp add: compactFlattenedList_leaves)
  have cnt: "count_list (filter t ys) x = (if t x then count_list ys x else 0)" for ys
    by (induction ys) auto
  show ?thesis
    using eq cnt by (simp add: compactFlattenedList_def)
qed

text \<open>
  C7, as the claim states it, fails for the same reason: on the flat sequence of the
  empty string and \<open>x\<close> the output lacks the empty string, a non-null element.
\<close>

theorem compactFlattenedList_flat_not_identity:
  "compactFlattenedList truthy_string [Item '''', Null, Item ''x'']
     \<noteq> items_of [Item '''', Null, Item ''x'']"
  by (simp add: compactFlattenedList_def truthy_string_def)

text \<open>
  C7, amended: on an already-flat sequence (one with no nested sequence),
  \<open>compactFlattenedList\<close> returns the truthy ones among its non-null elements, in order.
\<close>

theorem compactFlattenedList_flat:
  assumes "\<forall>i\<in>set list. \<not> is_nested i"
  shows "compactFlattenedList t list = filter t (items_of list)"
  using assms by (simp add: compactFlattenedList_leaves flat_items_of)

theorem compactFlattenedList_flat_witness:
  "compactFlattenedList truthy_string [Item ''lib'', Null, Item '''', Item ''lib'']
     = [''lib'', ''lib'']"
  using compactFlattenedList_flat
    [of "[Item ''lib'', Null, Item '''', Item ''lib'']" truthy_string]
  by (simp add: truthy_string_def)

section \<open>Properties of the file system operations\<close>

lemma rm_Inr:
  assumes "rm fs p = Inr fs'"
  obtains (missing) "namei fs False p = Inl ENOENT" "fs' = fs"
  | (removed) q where "namei fs False p = Inr q" "q \<noteq> []" "fs' = unlink fs q"
  using assms by (auto simp: rm_def split: sum.splits if_splits option.splits entry.splits)



lemma resolve_nofollow_directory:
  "resolve fs follow h cur rest = Inr b \<Longrightarrow> \<not> follow
    \<Longrightarrow> resolve fs True h cur rest = Inr a \<Longrightarrow> is_directory (fs b) \<Longrightarrow> a = b"
proof (induction fs follow h cur rest arbitrary: a b rule: resolve.induct)
  case (1 fs follow hops cur)
  then show ?case by simp
next
  case (2 fs follow hops cur n rest)
  show ?case
  proof (cases "fs (cur @ [n])")
    case None
    with "2.prems" show ?thesis by simp
  next
    case (Some e)
    show ?thesis
    proof (cases e)
      case (RegularFile c)
      with Some "2.prems" show ?thesis by (simp split: if_splits)
    next
      case (Directory r w ns)
      with Some "2.prems" have
        r: "resolve fs follow hops (cur @ [n]) rest = Inr b"
           "resolve fs True hops (cur @ [n]) rest = Inr a"
        by simp_all
      show ?thesis
        by (rule "2.IH"(1)[OF Some Directory r(1) "2.prems"(2) r(2) "2.prems"(4)])
    next
      case (SymbolicLink t)
      show ?thesis
      proof (cases "rest = []")
        case True
        with Some SymbolicLink "2.prems" show ?thesis by auto
      next
        case False
        show ?thesis
        proof (cases hops)
          case 0
          with False Some SymbolicLink "2.prems" show ?thesis by simp
        next
          case (Suc k)
          with False Some SymbolicLink "2.prems" have
            r: "resolve fs follow k [] (t @ rest) = Inr b"
               "resolve fs True k [] (t @ rest) = Inr a"
            by simp_all
          from False have c: "\<not> (rest = [] \<and> \<not> follow)" by simp
          show ?thesis
            by (rule "2.IH"(2)[OF Some SymbolicLink c Suc r(1) "2.prems"(2) r(2) "2.prems"(4)])
        qed
      qed
    next
      case Special
      with Some "2.prems" show ?thesis by (simp split: if_splits)
    qed
  qed
qed

lemma stat_file_not_directory:
  assumes "stat fs p = Inr st" "isFile st" "namei fs False p = Inr q"
  shows "\<not> is_directory (fs q)"
proof
  assume d: "is_directory (fs q)"
  from assms(1) obtain a e where a: "namei fs True p = Inr a" "fs a = Some e" "st = stats_of e"
    by (auto simp: stat_def split: sum.splits option.splits)
  from assms(3) a(1) have "a = q"
    using resolve_nofollow_directory[of fs False MAXSYMLINKS "[]" p q a] d
    by (auto simp: namei_def split: if_splits)
  with d a assms(2) show False by (cases e) auto
qed

lemma resolve_follow_nofollow:
  "resolve fs follow h cur rest = Inr a \<Longrightarrow> follow \<Longrightarrow> \<exists>b. resolve fs False h cur rest = Inr b"
proof (induction fs follow h cur rest rule: resolve.induct)
  case (1 fs follow hops cur)
  then show ?case by simp
next
  case (2 fs follow hops cur n rest)
  show ?case
  proof (cases "fs (cur @ [n])")
    case None
    with "2.prems" show ?thesis by simp
  next
    case (Some e)
    show ?thesis
    proof (cases e)
      case (RegularFile c)
      with Some "2.prems" show ?thesis by (simp split: if_splits)
    next
      case (Directory r w ns)
      with Some "2.prems" have "resolve fs follow hops (cur @ [n]) rest = Inr a" by simp
      from "2.IH"(1)[OF Some Directory this "2.prems"(2)] Some Directory show ?thesis by simp
    next
      case (SymbolicLink t)
      show ?thesis
      proof (cases "rest = []")
        case True
        with Some SymbolicLink show ?thesis by simp
      next
        case False
        then have c: "\<not> (rest = [] \<and> \<not> follow)" by simp
        show ?thesis
        proof (cases hops)
          case 0
          with False Some SymbolicLink "2.prems" show ?thesis by simp
        next
          case (Suc k)
          with False Some SymbolicLink "2.prems"
          have "resolve fs follow k [] (t @ rest) = Inr a" by simp
          from "2.IH"(2)[OF Some SymbolicLink c Suc this "2.prems"(2)] Some SymbolicLink False Suc
          show ?thesis by simp
        qed
      qed
    next
      case Special
      with Some "2.prems" show ?thesis by (simp split: if_splits)
    qed
  qed
qed

lemma stat_namei_nofollow:
  assumes "stat fs p = Inr st"
  obtains q where "namei fs False p = Inr q"
proof -
  from assms obtain a where "namei fs True p = Inr a"
    by (auto simp: stat_def split: sum.splits)
  then show ?thesis
    using resolve_follow_nofollow[of fs True MAXSYMLINKS "[]" p a] that
    by (auto simp: namei_def split: if_splits)
qed


lemma resolve_follow_not_link:
  "resolve fs follow h cur rest = Inr q \<Longrightarrow> follow
    \<Longrightarrow> \<forall>t. fs cur \<noteq> Some (SymbolicLink t) \<Longrightarrow> \<forall>t. fs [] \<noteq> Some (SymbolicLink t)
    \<Longrightarrow> fs q \<noteq> Some (SymbolicLink t)"
proof (induction fs follow h cur rest rule: resolve.induct)
  case (1 fs follow hops cur)
  then show ?case by simp
next
  case (2 fs follow hops cur n rest)
  show ?case
  proof (cases "fs (cur @ [n])")
    case None
    with "2.prems" show ?thesis by simp
  next
    case (Some e)
    show ?thesis
    proof (cases e)
      case (RegularFile c)
      with Some "2.prems" show ?thesis by (auto split: if_splits)
    next
      case (Directory r w ns)
      with Some "2.prems" have r: "resolve fs follow hops (cur @ [n]) rest = Inr q" by simp
      from Some Directory have "\<forall>t. fs (cur @ [n]) \<noteq> Some (SymbolicLink t)" by simp
      from "2.IH"(1)[OF Some Directory r "2.prems"(2) this "2.prems"(4)] show ?thesis .
    next
      case (SymbolicLink u)
      from "2.prems"(2) have c: "\<not> (rest = [] \<and> \<not> follow)" by simp
      show ?thesis
      proof (cases hops)
        case 0
        with Some SymbolicLink "2.prems" show ?thesis by simp
      next
        case (Suc k)
        with Some SymbolicLink "2.prems"
        have r: "resolve fs follow k [] (u @ rest) = Inr q" by simp
        from "2.IH"(2)[OF Some SymbolicLink c Suc r "2.prems"(2) "2.prems"(4) "2.prems"(4)]
        show ?thesis .
      qed
    next
      case Special
      with Some "2.prems" show ?thesis by (auto split: if_splits)
    qed
  qed
qed

text \<open>
  \<open>stat\<close> never reports a symbolic link (the root being none), so the walker's guard
  \<^verbatim>\<open>!stat.isSymbolicLink()\<close> holds of every entry.
\<close>

lemma stat_never_reports_link:
  assumes "stat fs p = Inr st" "\<forall>t. fs [] \<noteq> Some (SymbolicLink t)"
  shows "\<not> isSymbolicLink st"
proof -
  from assms(1) obtain q e where q: "namei fs True p = Inr q" "fs q = Some e" "st = stats_of e"
    by (auto simp: stat_def split: sum.splits option.splits)
  from q(1) have "resolve fs True MAXSYMLINKS [] p = Inr q"
    by (auto simp: namei_def split: if_splits)
  from resolve_follow_not_link[OF this _ assms(2) assms(2)] q(2)
  have "\<forall>t. e \<noteq> SymbolicLink t" by auto
  with q(3) show ?thesis by (cases e) auto
qed

lemma readdir_distinct: "listings_distinct fs \<Longrightarrow> readdir fs p = Inr cs \<Longrightarrow> distinct cs"
  by (auto simp: readdir_def listings_distinct_def
      split: sum.splits option.splits entry.splits if_splits)

lemma unlink_directory:
  "\<not> is_directory (fs q) \<Longrightarrow> fs x = Some (Directory r w ns)
    \<Longrightarrow> \<exists>ns'. unlink fs q x = Some (Directory r w ns')"
  by (auto simp: unlink_def)

lemma unlink_listings_distinct: "listings_distinct fs \<Longrightarrow> listings_distinct (unlink fs q)"
  unfolding listings_distinct_def unlink_def
  by (auto split: if_splits option.splits entry.splits simp: distinct_removeAll)



lemma shrinks_unlink: "shrinks fs (unlink fs q)"
  by (auto simp: shrinks_def unlink_def split: option.splits entry.splits)

lemma keeps_directories_refl: "keeps_directories fs fs"
  by (simp add: keeps_directories_def)






section \<open>Properties of the walker\<close>

subsection \<open>Successful calls, case by case\<close>

lemma walkAsync_Inr:
  assumes "walkAsync fs p = Inr (rs, fs')"
  obtains cs where "readdir fs p = Inr cs" "walk_children fs p cs = Inr (rs, fs')"
  using assms by (auto simp: walkAsync.simps split: sum.splits)

lemma walk_children_Cons_Inr:
  assumes "walk_children fs p (c # cs) = Inr (rs, fs'')"
  obtains r fs' rs' where "walk_child fs p c = Inr (r, fs')"
    "walk_children fs' p cs = Inr (rs', fs'')" "rs = r # rs'"
  using assms by (auto split: sum.splits)

lemma walk_child_Inr:
  assumes "walk_child fs p c = Inr (r, fs')"
  obtains
    (stale) st where "stat fs (p @ [c]) = Inr st" "isFile st" "extname (p @ [c]) = ''.cstemp''"
      "rm fs (p @ [c]) = Inr fs'" "r = Null"
  | (regular) st b where "stat fs (p @ [c]) = Inr st" "isFile st" "extname (p @ [c]) \<noteq> ''.cstemp''"
      "isBinaryFile fs (p @ [c]) = Inr b" "r = (if b then Item (p @ [c]) else Null)" "fs' = fs"
  | (directory) st rs where "stat fs (p @ [c]) = Inr st" "\<not> isFile st" "isDirectory st"
      "\<not> isSymbolicLink st" "walkAsync fs (p @ [c]) = Inr (rs, fs')"
      "r = Arr (if extname (p @ [c]) = ''.app'' \<or> extname (p @ [c]) = ''.framework''
                then rs @ [Item (p @ [c])] else rs)"
  | (other) st where "stat fs (p @ [c]) = Inr st" "\<not> isFile st"
      "\<not> (isDirectory st \<and> \<not> isSymbolicLink st)" "r = Null" "fs' = fs"
  using assms
  by (auto simp: walk_child.simps Let_def getFilePathIfBinary_def split: sum.splits if_splits)

lemma truthy_path: "truthy_path p"
  by (cases p) (auto simp: truthy_path_def truthy_string_def path_string_def)

lemma flatten_paths: "compactFlattenedList truthy_path rs = concat (map leaves rs)"
  by (simp add: compactFlattenedList_leaves truthy_path)

lemma walk_Inr:
  assumes "walk fs p = Inr (out, fs')"
  obtains rs where "walkAsync fs p = Inr (rs, fs')" "out = concat (map leaves rs)"
  using assms by (auto simp: walk_def flatten_paths split: sum.splits)

subsection \<open>What a walk does to the file system\<close>

text \<open>
  The walk changes the file system only by removing what \<open>stat\<close> reports as a file, so
  it preserves whatever such a removal preserves.
\<close>

lemma walk_invariant:
  assumes step: "\<forall>fs p st fs'. I fs \<longrightarrow> stat fs p = Inr st \<longrightarrow> isFile st \<longrightarrow> rm fs p = Inr fs' \<longrightarrow> I fs'"
  shows "I fs \<Longrightarrow> walkAsync fs p = Inr (rs, fs') \<Longrightarrow> I fs'"
    and "I fs \<Longrightarrow> walk_children fs p cs = Inr (rs, fs') \<Longrightarrow> I fs'"
    and "I fs \<Longrightarrow> walk_child fs p c = Inr (r, fs') \<Longrightarrow> I fs'"
proof (induction fs p and fs p cs and fs p c arbitrary: rs fs' and rs fs' and r fs'
    rule: walkAsync_walk_children_walk_child.induct)
  case (1 fs dirPath)
  then show ?case by (auto elim!: walkAsync_Inr)
next
  case (2 fs dirPath)
  then show ?case by simp
next
  case (3 fs dirPath child rest)
  from "3.prems"(2) obtain r fs1 rs' where
    c: "walk_child fs dirPath child = Inr (r, fs1)" and
    r: "walk_children fs1 dirPath rest = Inr (rs', fs')"
    by (rule walk_children_Cons_Inr)
  from "3.IH"(1)[OF "3.prems"(1) c] have "I fs1" .
  from "3.IH"(2)[OF c refl this r] show ?case .
next
  case (4 fs dirPath child)
  from "4.prems"(2) show ?case
  proof (cases rule: walk_child_Inr)
    case (stale st)
    then show ?thesis using step "4.prems"(1) by blast
  next
    case (regular st b)
    then show ?thesis using "4.prems"(1) by simp
  next
    case (directory st rs)
    then show ?thesis using "4.IH"[OF refl directory(1,2) _ "4.prems"(1) directory(5)] by simp
  next
    case (other st)
    then show ?thesis using "4.prems"(1) by simp
  qed
qed

lemma rm_listings_distinct:
  "\<forall>fs p st fs'. listings_distinct fs \<longrightarrow> stat fs p = Inr st \<longrightarrow> isFile st
      \<longrightarrow> rm fs p = Inr fs' \<longrightarrow> listings_distinct fs'"
  by (auto elim!: rm_Inr simp: unlink_listings_distinct)

lemmas walk_listings_distinct =
  walk_invariant[where I = listings_distinct, OF rm_listings_distinct]

lemma rm_directory:
  "\<forall>fs p st fs'. (\<exists>ns. fs q = Some (Directory r w ns)) \<longrightarrow> stat fs p = Inr st
      \<longrightarrow> isFile st \<longrightarrow> rm fs p = Inr fs' \<longrightarrow> (\<exists>ns. fs' q = Some (Directory r w ns))"
proof (intro allI impI)
  fix fs p st fs'
  assume d: "\<exists>ns. fs q = Some (Directory r w ns)" and st: "stat fs p = Inr st" "isFile st"
    and rm: "rm fs p = Inr fs'"
  from rm show "\<exists>ns. fs' q = Some (Directory r w ns)"
  proof (cases rule: rm_Inr)
    case missing
    with d show ?thesis by simp
  next
    case (removed x)
    from stat_file_not_directory[OF st removed(1)] d removed(3) show ?thesis
      by (auto intro: unlink_directory)
  qed
qed

lemmas walk_directory =
  walk_invariant[where I = "\<lambda>fs. \<exists>ns. fs q = Some (Directory r w ns)", OF rm_directory] for q r w

lemma walk_keeps_directories:
  "walkAsync fs p = Inr (rs, fs') \<Longrightarrow> keeps_directories fs fs'"
  "walk_children fs p cs = Inr (rs, fs') \<Longrightarrow> keeps_directories fs fs'"
  "walk_child fs p c = Inr (r, fs') \<Longrightarrow> keeps_directories fs fs'"
  unfolding keeps_directories_def
  by (intro allI impI, erule walk_directory, assumption)+




subsection \<open>Where the paths of the output lie, and their order\<close>





lemma sibling_not_below:
  assumes "prefix (p @ [c]) x" "prefix (p @ [c']) x"
  shows "c = c'"
proof -
  from assms have "prefix (p @ [c]) (p @ [c']) \<or> prefix (p @ [c']) (p @ [c])"
    using prefix_same_cases by blast
  then show ?thesis by auto
qed


subsection \<open>The entries a walk encounters\<close>












subsection \<open>Symbolic links\<close>

text \<open>
  C2 does not hold of the code.  In \<open>fs_links\<close>, \<open>lstat\<close> shows \<open>Lib\<close> and \<open>Versions/Current\<close>
  to be symbolic links, yet the walk reports \<open>Lib\<close> as a binary and descends into
  \<open>Versions/Current\<close>, reporting the binary once more under that path: \<open>stat\<close> has
  followed both links.
\<close>

theorem walk_follows_symbolic_links:
  "lstat fs_links [''Frameworks'', ''Lib.framework'', ''Lib''] = Inr (Stats False False True)
   \<and> lstat fs_links [''Frameworks'', ''Lib.framework'', ''Versions'', ''Current'']
       = Inr (Stats False False True)
   \<and> walk fs_links [''Frameworks''] =
       Inr ([[''Frameworks'', ''Lib.framework'', ''Lib''],
             [''Frameworks'', ''Lib.framework'', ''Versions'', ''A'', ''Lib''],
             [''Frameworks'', ''Lib.framework'', ''Versions'', ''Current'', ''Lib''],
             [''Frameworks'', ''Lib.framework'']], fs_links)"
  by (simp add: fs_eval fs_links_def)

text \<open>
  C8 does not hold of the code.  The first walk of \<open>fs_stale_link\<close> reports the link
  \<open>helper\<close>, whose target \<open>stat\<close> finds to be a binary file, and removes that target,
  the stale artifact \<open>helper.cstemp\<close>; the second walk, on the file system the first one
  left, fails at the \<open>stat\<close> of the now dangling link.
\<close>

theorem walk_twice_differs:
  "walk fs_stale_link [''App.app'']
     = Inr ([[''App.app'', ''helper'']], unlink fs_stale_link [''App.app'', ''helper.cstemp''])
   \<and> walk (unlink fs_stale_link [''App.app'', ''helper.cstemp'']) [''App.app'']
     = Inl ENOENT"
  by (simp add: fs_eval fs_stale_link_def)

subsection \<open>Walking twice where there are no symbolic links\<close>

text \<open>
  Without symbolic links every path is its own canonical path, a walk changes the
  file system only below the directory it walks, and a second walk finds what the
  first one found, the removed stale artifacts apart.
\<close>

lemma dirs_between_Cons:
  "dirs_between fs cur (n # rest) =
     (rest = [] \<or> (is_directory (fs (cur @ [n])) \<and> dirs_between fs (cur @ [n]) rest))"
proof (cases "rest = []")
  case True
  then show ?thesis
    by (auto simp: dirs_between_def strict_prefix_def prefix_Cons)
next
  case False
  have "dirs_between fs cur (n # rest)
      = (is_directory (fs (cur @ [n])) \<and> dirs_between fs (cur @ [n]) rest)"
  proof
    assume a: "dirs_between fs cur (n # rest)"
    have "is_directory (fs (cur @ [n]))"
      using a False by (auto simp: dirs_between_def strict_prefix_def prefix_Cons dest!: spec[of _ "[n]"])
    moreover have "dirs_between fs (cur @ [n]) rest"
      unfolding dirs_between_def
    proof (intro allI impI)
      fix ys assume "ys \<noteq> [] \<and> strict_prefix ys rest"
      then have "n # ys \<noteq> [] \<and> strict_prefix (n # ys) (n # rest)" by simp
      with a have "is_directory (fs (cur @ n # ys))" unfolding dirs_between_def by blast
      then show "is_directory (fs ((cur @ [n]) @ ys))" by simp
    qed
    ultimately show "is_directory (fs (cur @ [n])) \<and> dirs_between fs (cur @ [n]) rest" ..
  next
    assume a: "is_directory (fs (cur @ [n])) \<and> dirs_between fs (cur @ [n]) rest"
    show "dirs_between fs cur (n # rest)"
      unfolding dirs_between_def
    proof (intro allI impI)
      fix ys assume y: "ys \<noteq> [] \<and> strict_prefix ys (n # rest)"
      then obtain zs where zs: "ys = n # zs" "strict_prefix zs rest"
        by (cases ys) (auto simp: strict_prefix_def)
      show "is_directory (fs (cur @ ys))"
      proof (cases "zs = []")
        case True
        with zs a show ?thesis by simp
      next
        case False
        with zs a have "is_directory (fs ((cur @ [n]) @ zs))"
          unfolding dirs_between_def by blast
        with zs show ?thesis by simp
      qed
    qed
  qed
  with False show ?thesis by simp
qed

lemma resolve_no_links:
  "resolve fs follow h cur rest = Inr q \<Longrightarrow> no_links fs
    \<Longrightarrow> q = cur @ rest \<and> dirs_between fs cur rest \<and> (rest \<noteq> [] \<longrightarrow> fs q \<noteq> None)"
proof (induction fs follow h cur rest rule: resolve.induct)
  case (1 fs follow hops cur)
  then show ?case by (simp add: dirs_between_def)
next
  case (2 fs follow hops cur n rest)
  show ?case
  proof (cases "fs (cur @ [n])")
    case None
    with "2.prems" show ?thesis by simp
  next
    case (Some e)
    show ?thesis
    proof (cases e)
      case (RegularFile c)
      with Some "2.prems" show ?thesis
        by (auto simp: dirs_between_Cons split: if_splits)
    next
      case (Directory r w ns)
      with Some "2.prems" have r: "resolve fs follow hops (cur @ [n]) rest = Inr q" by simp
      from "2.IH"(1)[OF Some Directory r "2.prems"(2)] Some Directory
      show ?thesis by (auto simp: dirs_between_Cons)
    next
      case (SymbolicLink t)
      with Some "2.prems"(2) show ?thesis by (simp add: no_links_def)
    next
      case Special
      with Some "2.prems" show ?thesis
        by (auto simp: dirs_between_Cons split: if_splits)
    qed
  qed
qed

lemma resolve_dirs:
  "no_links fs \<Longrightarrow> dirs_between fs cur rest \<Longrightarrow> rest \<noteq> [] \<Longrightarrow> fs (cur @ rest) \<noteq> None
    \<Longrightarrow> resolve fs follow h cur rest = Inr (cur @ rest)"
proof (induction fs follow h cur rest rule: resolve.induct)
  case (1 fs follow hops cur)
  then show ?case by simp
next
  case (2 fs follow hops cur n rest)
  show ?case
  proof (cases "rest = []")
    case True
    with "2.prems" obtain e where e: "fs (cur @ [n]) = Some e" by auto
    with "2.prems"(1) True show ?thesis
      by (cases e) (auto simp: no_links_def)
  next
    case False
    with "2.prems"(2) have d: "is_directory (fs (cur @ [n]))" "dirs_between fs (cur @ [n]) rest"
      by (simp_all add: dirs_between_Cons)
    from d(1) obtain r w ns where e: "fs (cur @ [n]) = Some (Directory r w ns)"
      by (cases "fs (cur @ [n])" rule: is_directory.cases) auto
    from "2.prems"(4) have "fs ((cur @ [n]) @ rest) \<noteq> None" by simp
    from "2.IH"(1)[OF e refl "2.prems"(1) d(2) False this] e show ?thesis by simp
  qed
qed

lemma shrinks_no_links: "shrinks fs fs' \<Longrightarrow> no_links fs \<Longrightarrow> no_links fs'"
  unfolding shrinks_def no_links_def
proof (intro allI)
  fix x t
  assume a: "\<forall>x. fs' x = None \<or> fs' x = fs x
      \<or> (\<exists>r w ns ns'. fs x = Some (Directory r w ns) \<and> fs' x = Some (Directory r w ns'))"
    and b: "\<forall>x t. fs x \<noteq> Some (SymbolicLink t)"
  from a[rule_format, of x] b[rule_format, of x t]
  show "fs' x \<noteq> Some (SymbolicLink t)" by auto
qed

lemma namei_no_links:
  assumes "namei fs follow p = Inr q" "no_links fs"
  shows "q = p" "dirs_between fs [] p" "p \<noteq> [] \<longrightarrow> fs p \<noteq> None" "path_length p \<le> PATH_MAX"
  using assms resolve_no_links[of fs follow MAXSYMLINKS "[]" p q]
  by (auto simp: namei_def split: if_splits)

lemma namei_transfer:
  assumes "namei G follow p = Inr q" "no_links G" "no_links F"
    and "dirs_between F [] p" "p \<noteq> [] \<longrightarrow> F p \<noteq> None"
  shows "namei F follow p = Inr p" "q = p"
proof -
  from namei_no_links[OF assms(1,2)] have q: "q = p" "path_length p \<le> PATH_MAX" by auto
  show "q = p" by (rule q(1))
  show "namei F follow p = Inr p"
  proof (cases "p = []")
    case True
    then show ?thesis by (simp add: namei_def path_length_def)
  next
    case False
    from resolve_dirs[OF assms(3), of "[]" p follow MAXSYMLINKS] assms(4,5) False q
    show ?thesis by (simp add: namei_def)
  qed
qed

lemma stat_transfer:
  assumes "stat G p = Inr st" "no_links G" "no_links F" "dirs_between F [] p"
    and "F p = G p \<or> (\<exists>r w ns ns'. G p = Some (Directory r w ns) \<and> F p = Some (Directory r w ns'))"
  shows "stat F p = Inr st"
proof -
  from assms(1) obtain q e where q: "namei G True p = Inr q" "G q = Some e" "st = stats_of e"
    by (auto simp: stat_def split: sum.splits option.splits)
  from namei_no_links(1)[OF q(1) assms(2)] have qp: "q = p" .
  with q(2) assms(5) have "F p \<noteq> None" by auto
  from namei_transfer(1)[OF q(1) assms(2-4)] this have n: "namei F True p = Inr p" by simp
  from assms(5) q(2,3) qp obtain e' where "F p = Some e'" "stats_of e' = st" by auto
  with n show ?thesis by (simp add: stat_def)
qed

lemma stat_no_links_present:
  assumes "stat fs p = Inr st" "no_links fs"
  obtains e where "fs p = Some e" "st = stats_of e"
proof -
  from assms(1) obtain q e where q: "namei fs True p = Inr q" "fs q = Some e" "st = stats_of e"
    by (auto simp: stat_def split: sum.splits option.splits)
  from namei_no_links(1)[OF q(1) assms(2)] q(2,3) that show ?thesis by simp
qed

lemma readdir_no_links:
  assumes "readdir G p = Inr cs" "no_links G"
  obtains w where "G p = Some (Directory True w cs)" "dirs_between G [] p"
    "path_length p \<le> PATH_MAX"
proof -
  from assms(1) obtain q where q: "namei G True p = Inr q"
    by (auto simp: readdir_def split: sum.splits)
  from namei_no_links[OF q assms(2)] have qp: "q = p" "dirs_between G [] p"
    "path_length p \<le> PATH_MAX" by auto
  from assms(1) q qp(1) obtain w where "G p = Some (Directory True w cs)"
    by (auto simp: readdir_def split: option.splits entry.splits if_splits)
  with qp that show ?thesis by blast
qed

lemma readdir_dirs:
  assumes "no_links F" "dirs_between F [] p" "F p = Some (Directory True w cs)"
    "path_length p \<le> PATH_MAX"
  shows "readdir F p = Inr cs"
proof -
  have "namei F True p = Inr p"
  proof (cases "p = []")
    case True
    then show ?thesis by (simp add: namei_def path_length_def)
  next
    case False
    from resolve_dirs[OF assms(1,2) False, of True MAXSYMLINKS] assms(3,4)
    show ?thesis by (simp add: namei_def)
  qed
  with assms(3) show ?thesis by (simp add: readdir_def)
qed

lemma isBinaryFile_transfer:
  assumes "isBinaryFile G p = Inr b" "no_links G" "no_links F" "dirs_between F [] p"
    and "F p = G p"
  shows "isBinaryFile F p = Inr b"
proof -
  from assms(1) obtain q where q: "namei G True p = Inr q"
    by (auto simp: isBinaryFile_def split: sum.splits)
  from namei_no_links(1)[OF q assms(2)] have qp: "q = p" .
  with assms(1) q have "G p \<noteq> None"
    by (auto simp: isBinaryFile_def split: option.splits)
  with assms(5) have "F p \<noteq> None" by simp
  from namei_transfer(1)[OF q assms(2-4)] this have "namei F True p = Inr p" by simp
  with assms(1,5) q qp show ?thesis by (simp add: isBinaryFile_def)
qed

lemma rm_no_links:
  assumes "rm fs p = Inr fs'" "stat fs p = Inr st" "no_links fs"
  shows "fs' = unlink fs p" "p \<noteq> []" "fs p \<noteq> None"
proof -
  from assms(2) obtain q where q: "namei fs False p = Inr q"
    by (rule stat_namei_nofollow)
  from namei_no_links[OF q assms(3)] have qp: "q = p" "p \<noteq> [] \<longrightarrow> fs p \<noteq> None" by auto
  from assms(1) q qp(1) show a: "fs' = unlink fs p" and b: "p \<noteq> []"
    by (auto elim!: rm_Inr)
  from b qp(2) show "fs p \<noteq> None" by simp
qed

lemma rm_no_links_step:
  "\<forall>fs p st fs'. no_links fs \<longrightarrow> stat fs p = Inr st \<longrightarrow> isFile st
      \<longrightarrow> rm fs p = Inr fs' \<longrightarrow> no_links fs'"
  by (auto elim!: rm_Inr intro: shrinks_no_links[OF shrinks_unlink])

lemmas walk_no_links = walk_invariant[where I = no_links, OF rm_no_links_step]

lemma unlink_elsewhere:
  "x \<noteq> p \<Longrightarrow> \<not> prefix (p @ [c]) x \<Longrightarrow> unlink fs (p @ [c]) x = fs x"
  by (auto simp: unlink_def)

lemma walk_local:
  "walkAsync fs p = Inr (rs, fs') \<Longrightarrow> no_links fs \<Longrightarrow> \<not> prefix p x \<Longrightarrow> fs' x = fs x"
  "walk_children fs p cs = Inr (rs, fs') \<Longrightarrow> no_links fs \<Longrightarrow> x \<noteq> p
     \<Longrightarrow> \<forall>c\<in>set cs. \<not> prefix (p @ [c]) x \<Longrightarrow> fs' x = fs x"
  "walk_child fs p c = Inr (r, fs') \<Longrightarrow> no_links fs \<Longrightarrow> x \<noteq> p
     \<Longrightarrow> \<not> prefix (p @ [c]) x \<Longrightarrow> fs' x = fs x"
proof (induction fs p and fs p cs and fs p c arbitrary: rs fs' and rs fs' and r fs'
    rule: walkAsync_walk_children_walk_child.induct)
  case (1 fs dirPath)
  from "1.prems"(1) obtain cs where cs: "readdir fs dirPath = Inr cs"
    "walk_children fs dirPath cs = Inr (rs, fs')"
    by (rule walkAsync_Inr)
  from "1.prems"(3) have "x \<noteq> dirPath" "\<forall>c\<in>set cs. \<not> prefix (dirPath @ [c]) x"
    by (auto dest: append_prefixD)
  from "1.IH"[OF cs "1.prems"(2) this] show ?case .
next
  case (2 fs dirPath)
  then show ?case by simp
next
  case (3 fs dirPath child rest)
  from "3.prems"(1) obtain r fs1 rs' where
    c: "walk_child fs dirPath child = Inr (r, fs1)" and
    r: "walk_children fs1 dirPath rest = Inr (rs', fs')"
    by (rule walk_children_Cons_Inr)
  from "3.prems"(4) have n: "\<not> prefix (dirPath @ [child]) x"
    "\<forall>c\<in>set rest. \<not> prefix (dirPath @ [c]) x" by simp_all
  from "3.IH"(1)[OF c "3.prems"(2,3) n(1)] have "fs1 x = fs x" .
  moreover from "3.IH"(2)[OF c refl r walk_no_links(3)[OF "3.prems"(2) c] "3.prems"(3) n(2)]
  have "fs' x = fs1 x" .
  ultimately show ?case by simp
next
  case (4 fs dirPath child)
  from "4.prems"(1) show ?case
  proof (cases rule: walk_child_Inr)
    case (stale st)
    from rm_no_links(1)[OF stale(4,1) "4.prems"(2)] "4.prems"(3,4)
    show ?thesis by (simp add: unlink_elsewhere)
  next
    case (regular st b)
    then show ?thesis by simp
  next
    case (directory st rs)
    from "4.IH"[OF refl directory(1,2) _ directory(5) "4.prems"(2,4)] directory(3,4)
    show ?thesis by simp
  next
    case (other st)
    then show ?thesis by simp
  qed
qed

lemma dirs_upto_child: "dirs_upto F p \<Longrightarrow> dirs_between F [] (p @ [c])"
  by (auto simp: dirs_upto_def dirs_between_def strict_prefix_def prefix_snoc)

lemma dirs_upto_intro:
  "dirs_between F [] p \<Longrightarrow> p \<noteq> [] \<longrightarrow> is_directory (F p) \<Longrightarrow> dirs_upto F p"
  by (auto simp: dirs_upto_def dirs_between_def strict_prefix_def)

lemma walk_child_listing:
  assumes "walk_child fs p c = Inr (x, fsA)" "no_links fs" "fs p = Some (Directory r w ns)"
  shows "(fsA (p @ [c]) = None \<and> fsA p = Some (Directory r w (removeAll c ns)))
    \<or> (fsA (p @ [c]) \<noteq> None \<and> fsA p = fs p)"
  using assms(1)
proof (cases rule: walk_child_Inr)
  case (stale st)
  from rm_no_links(1)[OF stale(4,1) assms(2)] assms(3) show ?thesis
    by (auto simp: unlink_def)
next
  case (regular st b)
  from stat_no_links_present[OF regular(1) assms(2)] regular(6) show ?thesis by auto
next
  case (directory st rs)
  from stat_no_links_present[OF directory(1) assms(2)] directory(3)
  obtain r' w' ns' where d: "fs (p @ [c]) = Some (Directory r' w' ns')"
    by (metis stats.sel(2) stats_of.elims)
  from walk_directory(1)[OF _ directory(5), of "p @ [c]" r' w'] d
  have "fsA (p @ [c]) \<noteq> None" by auto
  moreover from walk_local(1)[OF directory(5) assms(2), of p] have "fsA p = fs p" by simp
  ultimately show ?thesis by simp
next
  case (other st)
  from stat_no_links_present[OF other(1) assms(2)] other(5) show ?thesis by auto
qed

lemma filter_removeAll_eq:
  "\<not> Q c \<Longrightarrow> (\<And>x. x \<noteq> c \<Longrightarrow> P x = Q x) \<Longrightarrow> filter P (removeAll c ns) = filter Q ns"
  by (induction ns) auto

lemma walk_children_listing:
  "walk_children fs p cs = Inr (rs, fs1) \<Longrightarrow> no_links fs \<Longrightarrow> distinct cs
    \<Longrightarrow> fs p = Some (Directory r w ns)
    \<Longrightarrow> fs1 p = Some (Directory r w (filter (\<lambda>c. c \<in> set cs \<longrightarrow> fs1 (p @ [c]) \<noteq> None) ns))"
proof (induction cs arbitrary: fs rs ns)
  case Nil
  then show ?case by simp
next
  case (Cons c rest)
  from Cons.prems(1) obtain x fsA rs' where
    c: "walk_child fs p c = Inr (x, fsA)" and
    r: "walk_children fsA p rest = Inr (rs', fs1)"
    by (rule walk_children_Cons_Inr)
  from Cons.prems(3) have d: "c \<notin> set rest" "distinct rest" by simp_all
  have nl: "no_links fsA" by (rule walk_no_links(3)[OF Cons.prems(2) c])
  have far: "\<forall>c'\<in>set rest. \<not> prefix (p @ [c']) (p @ [c])"
    using d(1) by auto
  from walk_local(2)[OF r nl _ far] have same: "fs1 (p @ [c]) = fsA (p @ [c])" by simp
  from walk_child_listing[OF c Cons.prems(2,4)]
  show ?case
  proof
    assume a: "fsA (p @ [c]) = None \<and> fsA p = Some (Directory r w (removeAll c ns))"
    from Cons.IH[OF r nl d(2)] a
    have "fs1 p = Some (Directory r w
        (filter (\<lambda>c'. c' \<in> set rest \<longrightarrow> fs1 (p @ [c']) \<noteq> None) (removeAll c ns)))" by simp
    moreover have "filter (\<lambda>c'. c' \<in> set rest \<longrightarrow> fs1 (p @ [c']) \<noteq> None) (removeAll c ns)
        = filter (\<lambda>c'. c' \<in> set (c # rest) \<longrightarrow> fs1 (p @ [c']) \<noteq> None) ns"
      using a same by (intro filter_removeAll_eq) auto
    ultimately show ?thesis by simp
  next
    assume a: "fsA (p @ [c]) \<noteq> None \<and> fsA p = fs p"
    from Cons.IH[OF r nl d(2)] a Cons.prems(4)
    have "fs1 p = Some (Directory r w
        (filter (\<lambda>c'. c' \<in> set rest \<longrightarrow> fs1 (p @ [c']) \<noteq> None) ns))" by simp
    moreover have "filter (\<lambda>c'. c' \<in> set rest \<longrightarrow> fs1 (p @ [c']) \<noteq> None) ns
        = filter (\<lambda>c'. c' \<in> set (c # rest) \<longrightarrow> fs1 (p @ [c']) \<noteq> None) ns"
      using a same d(1) by (intro filter_cong) auto
    ultimately show ?thesis by simp
  qed
qed

lemma walk_again:
  "walkAsync fs p = Inr (rs, fs1) \<Longrightarrow> no_links fs \<Longrightarrow> listings_distinct fs \<Longrightarrow> no_links F
     \<Longrightarrow> \<forall>x. prefix p x \<longrightarrow> F x = fs1 x \<Longrightarrow> dirs_between F [] p
     \<Longrightarrow> \<exists>rs'. walkAsync F p = Inr (rs', F) \<and> concat (map leaves rs') = concat (map leaves rs)"
  "walk_children fs p cs = Inr (rs, fs1) \<Longrightarrow> no_links fs \<Longrightarrow> listings_distinct fs
     \<Longrightarrow> distinct cs \<Longrightarrow> no_links F
     \<Longrightarrow> \<forall>c\<in>set cs. \<forall>x. prefix (p @ [c]) x \<longrightarrow> F x = fs1 x \<Longrightarrow> dirs_upto F p
     \<Longrightarrow> \<exists>rs'. walk_children F p (filter (\<lambda>c. fs1 (p @ [c]) \<noteq> None) cs) = Inr (rs', F)
           \<and> concat (map leaves rs') = concat (map leaves rs)"
  "walk_child fs p c = Inr (r, fs1) \<Longrightarrow> no_links fs \<Longrightarrow> listings_distinct fs \<Longrightarrow> no_links F
     \<Longrightarrow> \<forall>x. prefix (p @ [c]) x \<longrightarrow> F x = fs1 x \<Longrightarrow> dirs_upto F p
     \<Longrightarrow> (if fs1 (p @ [c]) = None then leaves r = []
          else \<exists>r'. walk_child F p c = Inr (r', F) \<and> leaves r' = leaves r)"
proof (induction fs p and fs p cs and fs p c arbitrary: rs fs1 F and rs fs1 F and r fs1 F
    rule: walkAsync_walk_children_walk_child.induct)
  case (1 fs dirPath)
  from "1.prems"(1) obtain cs where cs: "readdir fs dirPath = Inr cs"
    "walk_children fs dirPath cs = Inr (rs, fs1)"
    by (rule walkAsync_Inr)
  from readdir_no_links[OF cs(1) "1.prems"(2)] obtain w where
    d: "fs dirPath = Some (Directory True w cs)" "path_length dirPath \<le> PATH_MAX"
    by blast
  have dist: "distinct cs" by (rule readdir_distinct[OF "1.prems"(3) cs(1)])
  from walk_children_listing[OF cs(2) "1.prems"(2) dist d(1)]
  have l1: "fs1 dirPath = Some (Directory True w (filter (\<lambda>c. fs1 (dirPath @ [c]) \<noteq> None) cs))"
    by (simp cong: filter_cong)
  with "1.prems"(5)
  have lF: "F dirPath = Some (Directory True w (filter (\<lambda>c. fs1 (dirPath @ [c]) \<noteq> None) cs))"
    by simp
  from readdir_dirs[OF "1.prems"(4,6) lF d(2)]
  have rF: "readdir F dirPath = Inr (filter (\<lambda>c. fs1 (dirPath @ [c]) \<noteq> None) cs)" .
  have up: "dirs_upto F dirPath"
    using "1.prems"(6) lF by (intro dirs_upto_intro) simp_all
  have agree: "\<forall>c\<in>set cs. \<forall>x. prefix (dirPath @ [c]) x \<longrightarrow> F x = fs1 x"
    using "1.prems"(5) by (auto dest: append_prefixD)
  from "1.IH"[OF cs(1) cs(2) "1.prems"(2,3) dist "1.prems"(4) agree up] rF
  show ?case by (simp add: walkAsync.simps)
next
  case (2 fs dirPath)
  then show ?case by simp
next
  case (3 fs dirPath child rest)
  from "3.prems"(1) obtain r fsA rs0 where
    c: "walk_child fs dirPath child = Inr (r, fsA)" and
    r: "walk_children fsA dirPath rest = Inr (rs0, fs1)" and rs: "rs = r # rs0"
    by (rule walk_children_Cons_Inr)
  from "3.prems"(4) have d: "child \<notin> set rest" "distinct rest" by simp_all
  have nl: "no_links fsA" by (rule walk_no_links(3)[OF "3.prems"(2) c])
  have ld: "listings_distinct fsA" by (rule walk_listings_distinct(3)[OF "3.prems"(3) c])
  have same: "fs1 x = fsA x" if "prefix (dirPath @ [child]) x" for x
  proof -
    from that have "x \<noteq> dirPath" by (auto simp: prefix_def)
    moreover have "\<forall>c'\<in>set rest. \<not> prefix (dirPath @ [c']) x"
      using that d(1) by (auto dest: sibling_not_below)
    ultimately show ?thesis using walk_local(2)[OF r nl] by blast
  qed
  then have agreeA: "\<forall>x. prefix (dirPath @ [child]) x \<longrightarrow> F x = fsA x"
    using "3.prems"(6) by simp
  from same[of "dirPath @ [child]"] have kept: "fs1 (dirPath @ [child]) = fsA (dirPath @ [child])"
    by simp
  from "3.IH"(1)[OF c "3.prems"(2,3,5) agreeA "3.prems"(7)]
  have first: "if fsA (dirPath @ [child]) = None then leaves r = []
      else \<exists>r'. walk_child F dirPath child = Inr (r', F) \<and> leaves r' = leaves r" .
  have agreeR: "\<forall>c\<in>set rest. \<forall>x. prefix (dirPath @ [c]) x \<longrightarrow> F x = fs1 x"
    using "3.prems"(6) by simp
  from "3.IH"(2)[OF c refl r nl ld d(2) "3.prems"(5) agreeR "3.prems"(7)]
  obtain rs0' where rest:
    "walk_children F dirPath (filter (\<lambda>c. fs1 (dirPath @ [c]) \<noteq> None) rest) = Inr (rs0', F)"
    "concat (map leaves rs0') = concat (map leaves rs0)"
    by blast
  show ?case
  proof (cases "fsA (dirPath @ [child]) = None")
    case True
    with first kept rest rs show ?thesis by simp
  next
    case False
    with first obtain r' where r': "walk_child F dirPath child = Inr (r', F)"
      "leaves r' = leaves r" by auto
    with False kept rest rs show ?thesis by simp
  qed
next
  case (4 fs dirPath child)
  let ?fp = "dirPath @ [child]"
  have dF: "dirs_between F [] ?fp" by (rule dirs_upto_child[OF "4.prems"(6)])
  from "4.prems"(5) have Ffp: "F ?fp = fs1 ?fp" by simp
  from "4.prems"(1) show ?case
  proof (cases rule: walk_child_Inr)
    case (stale st)
    from rm_no_links(1)[OF stale(4,1) "4.prems"(2)] have "fs1 ?fp = None"
      by (simp add: unlink_def)
    with stale(5) show ?thesis by simp
  next
    case (regular st b)
    from stat_no_links_present[OF regular(1) "4.prems"(2)] regular(6)
    have ne: "fs1 ?fp \<noteq> None" by auto
    from Ffp regular(6) have "F ?fp = fs ?fp" by simp
    then have "stat F ?fp = Inr st" "isBinaryFile F ?fp = Inr b"
      using stat_transfer[OF regular(1) "4.prems"(2,4) dF]
        isBinaryFile_transfer[OF regular(4) "4.prems"(2,4) dF] by simp_all
    with regular(2,3,5) have "walk_child F dirPath child = Inr (r, F)"
      by (simp add: walk_child.simps Let_def getFilePathIfBinary_def)
    with ne show ?thesis by auto
  next
    case (directory st rs0)
    from stat_no_links_present[OF directory(1) "4.prems"(2)] directory(3)
    obtain r' w' ns' where d: "fs ?fp = Some (Directory r' w' ns')"
      by (metis stats.sel(2) stats_of.elims)
    from walk_directory(1)[OF _ directory(5), of ?fp r' w'] d
    obtain ns1 where d1: "fs1 ?fp = Some (Directory r' w' ns1)" by auto
    with Ffp d have "F ?fp = fs ?fp
        \<or> (\<exists>r w ns ns'. fs ?fp = Some (Directory r w ns) \<and> F ?fp = Some (Directory r w ns'))"
      by simp
    from stat_transfer[OF directory(1) "4.prems"(2,4) dF this]
    have sF: "stat F ?fp = Inr st" .
    from "4.IH"[OF refl directory(1,2) _ directory(5) "4.prems"(2,3,4,5) dF] directory(3,4)
    obtain rs0' where w: "walkAsync F ?fp = Inr (rs0', F)"
      "concat (map leaves rs0') = concat (map leaves rs0)" by auto
    from sF directory(2,3,4) w(1)
    have "walk_child F dirPath child
      = Inr (Arr (if extname ?fp = ''.app'' \<or> extname ?fp = ''.framework''
                  then rs0' @ [Item ?fp] else rs0'), F)"
      by (simp add: walk_child.simps Let_def)
    with d1 w(2) directory(6) show ?thesis by auto
  next
    case (other st)
    from stat_no_links_present[OF other(1) "4.prems"(2)] other(5)
    have ne: "fs1 ?fp \<noteq> None" by auto
    from Ffp other(5) have "F ?fp = fs ?fp" by simp
    then have "stat F ?fp = Inr st"
      using stat_transfer[OF other(1) "4.prems"(2,4) dF] by simp
    with other(2,3,4) have "walk_child F dirPath child = Inr (r, F)"
      by (auto simp: walk_child.simps Let_def)
    with ne show ?thesis by auto
  qed
qed

text \<open>
  On a file system without symbolic links the walk is idempotent: a second walk of
  the file system the first one left returns the same sequence and changes nothing.
  The failure of C8 is the walker's following of symbolic links and nothing else.
\<close>

theorem walk_idempotent_without_links:
  assumes "walk fs dirPath = Inr (out, fs')" and "no_links fs" and "listings_distinct fs"
  shows "walk fs' dirPath = Inr (out, fs')"
proof -
  from assms(1) obtain rs where rs: "walkAsync fs dirPath = Inr (rs, fs')"
    "out = concat (map leaves rs)"
    by (rule walk_Inr)
  have nl: "no_links fs'" by (rule walk_no_links(1)[OF assms(2) rs(1)])
  from rs(1) obtain cs where cs: "readdir fs dirPath = Inr cs"
    by (rule walkAsync_Inr)
  from readdir_no_links[OF cs assms(2)] have "dirs_between fs [] dirPath" by blast
  with walk_keeps_directories(1)[OF rs(1)] have "dirs_between fs' [] dirPath"
    unfolding dirs_between_def keeps_directories_def
    by (metis is_directory.elims(2) is_directory.simps(1))
  from walk_again(1)[OF rs(1) assms(2,3) nl _ this] rs(2) show ?thesis
    by (auto simp: walk_def flatten_paths)
qed

lemma walk_idempotent_without_links_example:
  "no_links fs_leftover \<and> listings_distinct fs_leftover
   \<and> walk fs_leftover [''App.app'']
       = Inr ([[''App.app'', ''App'']], unlink fs_leftover [''App.app'', ''App.cstemp''])
   \<and> walk (unlink fs_leftover [''App.app'', ''App.cstemp'']) [''App.app'']
       = Inr ([[''App.app'', ''App'']], unlink fs_leftover [''App.app'', ''App.cstemp''])"
proof -
  have w: "walk fs_leftover [''App.app'']
       = Inr ([[''App.app'', ''App'']], unlink fs_leftover [''App.app'', ''App.cstemp''])"
    by (simp add: fs_eval fs_leftover_def)
  have d: "listings_distinct fs_leftover"
    by (auto simp: listings_distinct_def fs_leftover_def split: if_splits)
  have n: "no_links fs_leftover"
    by (auto simp: no_links_def fs_leftover_def split: if_splits)
  from walk_idempotent_without_links[OF w n d] w d n show ?thesis by simp
qed

section \<open>Properties of the concurrent walker\<close>

subsection \<open>Rejections\<close>

lemma all_promise_not_rejected: "rejection_of (all_promise cbs) = None"
  by (induction cbs) (auto split: promise.splits)

lemma rejection_of_AwaitWalk:
  "rejection_of (callback_promise (AwaitWalk q c)) = rejection_of (call_promise c)"
  by (cases "call_promise c") simp_all

lemma consistent_all_update:
  "consistent_all cbs \<Longrightarrow> consistent_callback cb \<Longrightarrow> consistent_all (cbs[i := cb])"
  by (induction cbs arbitrary: i) (auto split: nat.splits)

lemma consistent_all_AwaitStat: "consistent_all (map (\<lambda>child. AwaitStat (f child)) cs)"
  by (induction cs) simp_all

lemma step_at_update:
  "step_at i pos fs cbs = Some (cbs', fs', ev) \<Longrightarrow>
     i < length cbs \<and> step_callback pos fs (cbs ! i) = Some (cbs' ! i, fs', ev)
     \<and> cbs' = cbs[i := cbs' ! i]"
proof (induction cbs arbitrary: i cbs')
  case Nil
  then show ?case by simp
next
  case (Cons cb cbs)
  show ?case
  proof (cases i)
    case 0
    with Cons.prems show ?thesis by (auto split: option.splits)
  next
    case (Suc j)
    with Cons.prems obtain cbs1 where s: "step_at j pos fs cbs = Some (cbs1, fs', ev)"
      "cbs' = cb # cbs1"
      by (auto split: option.splits)
    from Cons.IH[OF s(1)] s(2) Suc show ?thesis by auto
  qed
qed

lemma step_keeps_rejection:
  "consistent_call c \<Longrightarrow> step_call pos fs c = Some (c', fs', ev) \<Longrightarrow>
     consistent_call c'
     \<and> rejection_of (call_promise c')
         = (case rejection_of (call_promise c) of Some e \<Rightarrow> Some e | None \<Rightarrow> snd (snd ev))"
  "consistent_all cbs \<Longrightarrow> step_at i pos fs cbs = Some (cbs', fs', ev) \<Longrightarrow>
     consistent_callback (cbs' ! i)
     \<and> rejection_of (callback_promise (cbs' ! i))
         = (case rejection_of (callback_promise (cbs ! i)) of Some e \<Rightarrow> Some e | None \<Rightarrow> snd (snd ev))"
  "consistent_callback cb \<Longrightarrow> step_callback pos fs cb = Some (cb', fs', ev) \<Longrightarrow>
     consistent_callback cb'
     \<and> rejection_of (callback_promise cb')
         = (case rejection_of (callback_promise cb) of Some e \<Rightarrow> Some e | None \<Rightarrow> snd (snd ev))"
proof (induction pos fs c and i pos fs cbs and pos fs cb arbitrary: c' fs' ev and cbs' fs' ev and cb' fs' ev
    rule: step_call_step_at_step_callback.induct)
  case (1 pos fs dirPath)
  then show ?case
    by (auto split: if_splits sum.splits
        simp: list_all_iff all_promise_not_rejected consistent_all_AwaitStat)
next
  case (2 pos fs e)
  then show ?case by simp
next
  case (3 fs rejection callbacks)
  then show ?case by simp
next
  case (4 i pos fs rejection callbacks)
  from "4.prems"(2) obtain cbs1 where
    s: "step_at i pos fs callbacks = Some (cbs1, fs', ev)"
    and c': "c' = Joining (case rejection of Some e \<Rightarrow> Some e
                 | None \<Rightarrow> rejection_of (callback_promise (cbs1 ! i))) cbs1"
    by (auto split: option.splits)
  from step_at_update[OF s] have i: "i < length callbacks"
    and sc: "step_callback pos fs (callbacks ! i) = Some (cbs1 ! i, fs', ev)"
    and upd: "cbs1 = callbacks[i := cbs1 ! i]"
    by simp_all
  from "4.prems"(1) have ca: "consistent_all callbacks" by simp
  from "4.IH"[OF ca s] have c1: "consistent_callback (cbs1 ! i)"
    and r1: "rejection_of (callback_promise (cbs1 ! i))
         = (case rejection_of (callback_promise (callbacks ! i)) of
              Some e \<Rightarrow> Some e | None \<Rightarrow> snd (snd ev))"
    by simp_all
  from consistent_all_update[OF ca c1, of i] upd have ca1: "consistent_all cbs1" by simp
  show ?case
  proof (cases rejection)
    case (Some e)
    with c' ca1 show ?thesis by simp
  next
    case None
    with "4.prems"(1) have quiet: "\<forall>cb\<in>set callbacks. rejection_of (callback_promise cb) = None"
      by (simp add: list_all_iff)
    with i have "rejection_of (callback_promise (callbacks ! i)) = None" by simp
    with r1 have r2: "rejection_of (callback_promise (cbs1 ! i)) = snd (snd ev)" by simp
    have "set cbs1 \<subseteq> insert (cbs1 ! i) (set callbacks)"
      using upd set_update_subset_insert[of callbacks i "cbs1 ! i"] by simp
    with quiet r2 have q1: "snd (snd ev) = None \<longrightarrow>
        (\<forall>cb\<in>set cbs1. rejection_of (callback_promise cb) = None)"
      by auto
    from None c' have c'': "c' = Joining (snd (snd ev)) cbs1" using r2 by simp
    show ?thesis
      using None c'' ca1 q1
      by (cases "snd (snd ev)") (simp_all add: list_all_iff all_promise_not_rejected)
  qed
next
  case (5 i pos fs)
  then show ?case by simp
next
  case (6 pos fs cb cbs)
  then show ?case by (auto split: option.splits)
next
  case (7 i pos fs cb cbs)
  then show ?case by (auto split: option.splits)
next
  case (8 pos fs filePath)
  then show ?case by (auto split: if_splits sum.splits)
next
  case (9 pos fs filePath)
  then show ?case by (auto split: if_splits sum.splits)
next
  case (10 pos fs filePath)
  then show ?case by (auto split: if_splits sum.splits)
next
  case (11 pos fs filePath c)
  from "11.prems"(2) obtain c1 where s: "step_call pos fs c = Some (c1, fs', ev)"
    and cb': "cb' = AwaitWalk filePath c1"
    by (auto split: option.splits)
  from "11.prems"(1) have "consistent_call c" by simp
  from "11.IH"[OF this s] cb' show ?case
    by (simp add: rejection_of_AwaitWalk del: callback_promise.simps)
next
  case (12 pos fs r)
  then show ?case by simp
next
  case (13 pos fs e)
  then show ?case by simp
qed


lemma first_failure_append:
  "first_failure (tr @ tr') = (case first_failure tr of Some e \<Rightarrow> Some e | None \<Rightarrow> first_failure tr')"
  by (induction tr) (auto split: option.splits)

lemma first_failure_exists:
  "(opn, q, Some e) \<in> set tr \<Longrightarrow> \<exists>e0. first_failure tr = Some e0"
  by (induction tr) (auto split: option.splits)

lemma run_keeps_rejection:
  "consistent_call c \<Longrightarrow> run sched (c, fs, tr) = Some (c', fs', tr') \<Longrightarrow>
     consistent_call c'
     \<and> (\<exists>tr1. tr' = tr @ tr1
          \<and> rejection_of (call_promise c')
              = (case rejection_of (call_promise c) of
                   Some e \<Rightarrow> Some e | None \<Rightarrow> first_failure tr1))"
proof (induction sched arbitrary: c fs tr)
  case Nil
  then show ?case by (auto split: option.splits)
next
  case (Cons pos sched)
  from Cons.prems(2) obtain c1 fs1 ev where
    s: "step_call pos fs c = Some (c1, fs1, ev)"
    and r: "run sched (c1, fs1, tr @ [ev]) = Some (c', fs', tr')"
    by (auto split: option.splits)
  from step_keeps_rejection(1)[OF Cons.prems(1) s] have c1: "consistent_call c1"
    and r1: "rejection_of (call_promise c1)
         = (case rejection_of (call_promise c) of Some e \<Rightarrow> Some e | None \<Rightarrow> snd (snd ev))"
    by simp_all
  from Cons.IH[OF c1 r] obtain tr1 where c': "consistent_call c'"
    and tr1: "tr' = (tr @ [ev]) @ tr1"
      "rejection_of (call_promise c')
         = (case rejection_of (call_promise c1) of Some e \<Rightarrow> Some e | None \<Rightarrow> first_failure tr1)"
    by blast
  obtain opn q x where ev: "ev = (opn, q, x)" by (cases ev)
  from tr1 r1 ev have "tr' = tr @ (ev # tr1)
      \<and> rejection_of (call_promise c')
         = (case rejection_of (call_promise c) of
              Some e \<Rightarrow> Some e | None \<Rightarrow> first_failure (ev # tr1))"
    by (auto split: option.splits)
  with c' show ?case by blast
qed

lemma rejection_of_walk_promise: "rejection_of (walk_promise c) = rejection_of (call_promise c)"
  by (cases "call_promise c") (simp_all add: walk_promise_def)

lemma rejection_of_Some: "rejection_of pr = Some e \<longleftrightarrow> pr = Rejected e"
  by (cases pr) auto


text \<open>A failure recorded in the trace is an operation that failed, and changed nothing.\<close>

lemma failure_event:
  "step_call pos fs c = Some (c', fs', (opn, q, Some e)) \<Longrightarrow>
     fs' = fs \<and> (case opn of
        OpReaddir \<Rightarrow> readdir fs q = Inl e
      | OpStat \<Rightarrow> stat fs q = Inl e
      | OpRm \<Rightarrow> rm fs q = Inl e
      | OpIsBinaryFile \<Rightarrow> isBinaryFile fs q = Inl e)"
  "step_at i pos fs cbs = Some (cbs', fs', (opn, q, Some e)) \<Longrightarrow>
     fs' = fs \<and> (case opn of
        OpReaddir \<Rightarrow> readdir fs q = Inl e
      | OpStat \<Rightarrow> stat fs q = Inl e
      | OpRm \<Rightarrow> rm fs q = Inl e
      | OpIsBinaryFile \<Rightarrow> isBinaryFile fs q = Inl e)"
  "step_callback pos fs cb = Some (cb', fs', (opn, q, Some e)) \<Longrightarrow>
     fs' = fs \<and> (case opn of
        OpReaddir \<Rightarrow> readdir fs q = Inl e
      | OpStat \<Rightarrow> stat fs q = Inl e
      | OpRm \<Rightarrow> rm fs q = Inl e
      | OpIsBinaryFile \<Rightarrow> isBinaryFile fs q = Inl e)"
proof (induction pos fs c and i pos fs cbs and pos fs cb arbitrary: c' and cbs' and cb'
    rule: step_call_step_at_step_callback.induct)
  case (1 pos fs dirPath)
  then show ?case by (auto split: if_splits sum.splits)
next
  case (4 i pos fs rejection callbacks)
  then show ?case by (auto split: option.splits)
next
  case (6 pos fs cb cbs)
  then show ?case by (auto split: option.splits)
next
  case (7 i pos fs cb cbs)
  then show ?case by (auto split: option.splits)
next
  case (8 pos fs filePath)
  then show ?case by (auto split: if_splits sum.splits)
next
  case (9 pos fs filePath)
  then show ?case by (auto split: if_splits sum.splits)
next
  case (10 pos fs filePath)
  then show ?case by (auto simp: getFilePathIfBinary_def split: if_splits sum.splits)
next
  case (11 pos fs filePath c)
  then show ?case by (auto split: option.splits)
qed simp_all


text \<open>
  C4, as the claim states it, fails: when several operations fail, the walk fails with
  the error of one of them only.  In the walk of \<open>fs_two_failures\<close> the \<open>stat\<close> of \<open>helper\<close> and
  the \<open>stat\<close> of \<open>loop\<close> are started together, and both fail, the first with \<open>ENOENT\<close> and
  the second with \<open>ELOOP\<close>.  Whichever completes first rejects \<open>Promise.all\<close>; the other
  fails all the same, and the walk does not fail with its error.
\<close>

theorem walk_rejects_with_another_error:
  "stat fs_two_failures [''App.app'', ''helper''] = Inl ENOENT
   \<and> stat fs_two_failures [''App.app'', ''loop''] = Inl ELOOP
   \<and> run [[], [0], [1]] (Listing [''App.app''], fs_two_failures, [])
     = Some (Joining (Some ENOENT) [Thrown ENOENT, Thrown ELOOP], fs_two_failures,
             [(OpReaddir, [''App.app''], None),
              (OpStat, [''App.app'', ''helper''], Some ENOENT),
              (OpStat, [''App.app'', ''loop''], Some ELOOP)])
   \<and> walk_promise (Joining (Some ENOENT) [Thrown ENOENT, Thrown ELOOP]) = Rejected ENOENT
   \<and> run [[], [1], [0]] (Listing [''App.app''], fs_two_failures, [])
     = Some (Joining (Some ELOOP) [Thrown ENOENT, Thrown ELOOP], fs_two_failures,
             [(OpReaddir, [''App.app''], None),
              (OpStat, [''App.app'', ''loop''], Some ELOOP),
              (OpStat, [''App.app'', ''helper''], Some ENOENT)])
   \<and> walk_promise (Joining (Some ELOOP) [Thrown ENOENT, Thrown ELOOP]) = Rejected ELOOP"
  by (simp add: fs_eval fs_two_failures_def walk_promise_def)

text \<open>
  C4, amended: if a directory listing, the \<open>stat\<close> of an entry, the removal of a stale
  artifact or the inspection of a file's content fails at any depth, in any order of
  completion of the concurrent operations, then the whole walk fails, with the error
  of the operation that failed first, and returns no output sequence, neither then
  nor however the callbacks still running go on; a file whose content cannot be read
  is such a failure, not a non-binary file.
\<close>

theorem walk_rejects_with_first_failure:
  assumes "run sched (Listing dirPath, fs, []) = Some (c, fs', tr)"
    and "(opn, q, Some e) \<in> set tr"
  shows "\<exists>e0. first_failure tr = Some e0 \<and> walk_promise c = Rejected e0
    \<and> (\<forall>out. walk_promise c \<noteq> Fulfilled out)
    \<and> (\<forall>more c' fs'' tr'. run more (c, fs', tr) = Some (c', fs'', tr')
          \<longrightarrow> walk_promise c' = Rejected e0)"
proof -
  from first_failure_exists[OF assms(2)] obtain e0 where e0: "first_failure tr = Some e0" ..
  have "consistent_call (Listing dirPath)" by simp
  from run_keeps_rejection[OF this assms(1)] e0 have c: "consistent_call c"
    and r: "rejection_of (call_promise c) = Some e0"
    by simp_all
  then have w: "walk_promise c = Rejected e0"
    by (simp add: rejection_of_walk_promise flip: rejection_of_Some)
  have "walk_promise c' = Rejected e0" if "run more (c, fs', tr) = Some (c', fs'', tr')"
    for more c' fs'' tr'
    using run_keeps_rejection[OF c that] r
    by (auto simp: rejection_of_walk_promise simp flip: rejection_of_Some)
  with e0 w show ?thesis by auto
qed

theorem walk_rejects_with_first_failure_witness:
  "run [[], [0], [0], [0, 0], [0, 1], [0, 0], [0, 1]] (Listing [''build''], fs_unreadable, [])
     = Some (Joining (Some EACCES)
               [AwaitWalk [''build'', ''App.app'']
                  (Joining (Some EACCES) [Returned Null, Thrown EACCES])],
             fs_unreadable,
             [(OpReaddir, [''build''], None),
              (OpStat, [''build'', ''App.app''], None),
              (OpReaddir, [''build'', ''App.app''], None),
              (OpStat, [''build'', ''App.app'', ''Info.plist''], None),
              (OpStat, [''build'', ''App.app'', ''AppBinary''], None),
              (OpIsBinaryFile, [''build'', ''App.app'', ''Info.plist''], None),
              (OpIsBinaryFile, [''build'', ''App.app'', ''AppBinary''], Some EACCES)])
   \<and> walk_promise (Joining (Some EACCES)
        [AwaitWalk [''build'', ''App.app''] (Joining (Some EACCES) [Returned Null, Thrown EACCES])])
     = Rejected EACCES"
proof -
  have r: "run [[], [0], [0], [0, 0], [0, 1], [0, 0], [0, 1]] (Listing [''build''], fs_unreadable, [])
     = Some (Joining (Some EACCES)
               [AwaitWalk [''build'', ''App.app'']
                  (Joining (Some EACCES) [Returned Null, Thrown EACCES])],
             fs_unreadable,
             [(OpReaddir, [''build''], None),
              (OpStat, [''build'', ''App.app''], None),
              (OpReaddir, [''build'', ''App.app''], None),
              (OpStat, [''build'', ''App.app'', ''Info.plist''], None),
              (OpStat, [''build'', ''App.app'', ''AppBinary''], None),
              (OpIsBinaryFile, [''build'', ''App.app'', ''Info.plist''], None),
              (OpIsBinaryFile, [''build'', ''App.app'', ''AppBinary''], Some EACCES)])"
    by (simp add: fs_eval fs_unreadable_def)
  from walk_rejects_with_first_failure[OF r,
      of OpIsBinaryFile "[''build'', ''App.app'', ''AppBinary'']" EACCES]
  have "walk_promise (Joining (Some EACCES)
        [AwaitWalk [''build'', ''App.app''] (Joining (Some EACCES) [Returned Null, Thrown EACCES])])
     = Rejected EACCES"
    by simp
  with r show ?thesis by simp
qed


text \<open>Conversely, a walk fails only with the error of an operation that failed.\<close>

lemma walk_rejects_only_on_failure:
  assumes "run sched (Listing dirPath, fs, []) = Some (c, fs', tr)"
    and "walk_promise c = Rejected e"
  shows "first_failure tr = Some e"
proof -
  have "consistent_call (Listing dirPath)" by simp
  from run_keeps_rejection[OF this assms(1)] assms(2) show ?thesis
    by (simp add: rejection_of_walk_promise flip: rejection_of_Some)
qed

subsection \<open>The walk in listing order is one of the executions\<close>

lemma run_append:
  "run (s1 @ s2) st = (case run s1 st of None \<Rightarrow> None | Some st' \<Rightarrow> run s2 st')"
proof (induction s1 arbitrary: st)
  case Nil
  then show ?case by simp
next
  case (Cons pos s1)
  obtain c fs tr where st: "st = (c, fs, tr)" by (cases st)
  show ?case unfolding st using Cons.IH by (auto split: option.splits)
qed

lemma run_trace:
  "run sched (c, fs, tr) = Some (c', fs', tr') \<Longrightarrow>
     \<exists>tr1. tr' = tr @ tr1 \<and> (\<forall>tr0. run sched (c, fs, tr0) = Some (c', fs', tr0 @ tr1))"
proof (induction sched arbitrary: c fs tr)
  case Nil
  then show ?case by simp
next
  case (Cons pos sched)
  from Cons.prems obtain c1 fs1 ev where
    s: "step_call pos fs c = Some (c1, fs1, ev)"
    and r: "run sched (c1, fs1, tr @ [ev]) = Some (c', fs', tr')"
    by (auto split: option.splits)
  from Cons.IH[OF r] obtain tr1 where
    t: "tr' = (tr @ [ev]) @ tr1" "\<forall>tr0. run sched (c1, fs1, tr0) = Some (c', fs', tr0 @ tr1)"
    by blast
  from t s have "tr' = tr @ (ev # tr1)
      \<and> (\<forall>tr0. run (pos # sched) (c, fs, tr0) = Some (c', fs', tr0 @ (ev # tr1)))"
    by simp
  then show ?case by blast
qed

lemma executes_refl: "executes c fs c fs"
  unfolding executes_def by (rule exI[of _ "[]"]) simp

lemma executes_step: "step_call pos fs c = Some (c', fs', ev) \<Longrightarrow> executes c fs c' fs'"
  unfolding executes_def by (rule exI[of _ "[pos]"]) simp

lemma executes_trans:
  assumes "executes c fs c1 fs1" and "executes c1 fs1 c2 fs2"
  shows "executes c fs c2 fs2"
proof -
  from assms obtain s1 tr1 s2 tr2 where
    r1: "run s1 (c, fs, []) = Some (c1, fs1, tr1)"
    and r2: "run s2 (c1, fs1, []) = Some (c2, fs2, tr2)"
    unfolding executes_def by blast
  from run_trace[OF r2] have "run s2 (c1, fs1, tr1) = Some (c2, fs2, tr1 @ tr2)" by auto
  with r1 have "run (s1 @ s2) (c, fs, []) = Some (c2, fs2, tr1 @ tr2)"
    by (simp add: run_append)
  then show ?thesis unfolding executes_def by blast
qed

lemma step_at_middle:
  "step_at (length pre) pos fs (pre @ cb # post) =
     (case step_callback pos fs cb of
        None \<Rightarrow> None
      | Some (cb', fs', ev) \<Rightarrow> Some (pre @ cb' # post, fs', ev))"
  by (induction pre) (auto split: option.splits)

lemma step_in_context:
  "step_callback pos fs cb = Some (cb', fs', ev) \<Longrightarrow>
   step_call (length pre # pos) fs (Joining rejection (pre @ cb # post)) =
     Some (Joining (case rejection of
                      Some e \<Rightarrow> Some e
                    | None \<Rightarrow> rejection_of (callback_promise cb'))
             (pre @ cb' # post), fs', ev)"
  by (cases rejection) (simp_all add: step_at_middle nth_append)

lemma run_in_context:
  assumes "consistent_call c" and "run sched (c, fs, tr) = Some (c', fs', tr')"
    and "rejection = None \<longrightarrow> rejection_of (call_promise c) = None"
  shows "run (map ((#) (length pre)) sched) (Joining rejection (pre @ AwaitWalk q c # post), fs, tr)
    = Some (Joining (case rejection of
                       Some e \<Rightarrow> Some e
                     | None \<Rightarrow> rejection_of (call_promise c'))
              (pre @ AwaitWalk q c' # post), fs', tr')"
  using assms
proof (induction sched arbitrary: c fs tr rejection)
  case Nil
  then show ?case by (cases rejection) auto
next
  case (Cons pos sched)
  from Cons.prems(2) obtain c1 fs1 ev where
    s: "step_call pos fs c = Some (c1, fs1, ev)"
    and r: "run sched (c1, fs1, tr @ [ev]) = Some (c', fs', tr')"
    by (auto split: option.splits)
  from step_keeps_rejection(1)[OF Cons.prems(1) s] have c1: "consistent_call c1"
    and r1: "rejection_of (call_promise c1)
         = (case rejection_of (call_promise c) of Some e \<Rightarrow> Some e | None \<Rightarrow> snd (snd ev))"
    by simp_all
  let ?rej1 = "case rejection of Some e \<Rightarrow> Some e | None \<Rightarrow> rejection_of (call_promise c1)"
  from s have "step_callback pos fs (AwaitWalk q c) = Some (AwaitWalk q c1, fs1, ev)"
    by simp
  from step_in_context[OF this, of pre rejection post]
  have step: "step_call (length pre # pos) fs (Joining rejection (pre @ AwaitWalk q c # post))
      = Some (Joining ?rej1 (pre @ AwaitWalk q c1 # post), fs1, ev)"
    by (cases rejection) (simp_all add: rejection_of_AwaitWalk del: callback_promise.simps)
  have "?rej1 = None \<longrightarrow> rejection_of (call_promise c1) = None"
    by (cases rejection) auto
  from Cons.IH[OF c1 r this]
  have rest: "run (map ((#) (length pre)) sched) (Joining ?rej1 (pre @ AwaitWalk q c1 # post), fs1, tr @ [ev])
      = Some (Joining (case ?rej1 of Some e \<Rightarrow> Some e | None \<Rightarrow> rejection_of (call_promise c'))
                (pre @ AwaitWalk q c' # post), fs', tr')" .
  from run_keeps_rejection[OF c1 r]
  have keep: "rejection_of (call_promise c')
      = (case rejection_of (call_promise c1) of
           Some e \<Rightarrow> Some e | None \<Rightarrow> rejection_of (call_promise c'))"
    by (auto split: option.splits)
  have "(case ?rej1 of Some e \<Rightarrow> Some e | None \<Rightarrow> rejection_of (call_promise c'))
      = (case rejection of Some e \<Rightarrow> Some e | None \<Rightarrow> rejection_of (call_promise c'))"
    using keep by (cases rejection) (auto split: option.splits)
  with step rest show ?case by simp
qed

lemma executes_in_context:
  assumes "executes (Listing q) fs c' fs'"
  shows "executes (Joining None (pre @ AwaitWalk q (Listing q) # post)) fs
           (Joining (rejection_of (call_promise c')) (pre @ AwaitWalk q c' # post)) fs'"
proof -
  from assms obtain sched tr' where r: "run sched (Listing q, fs, []) = Some (c', fs', tr')"
    unfolding executes_def by blast
  have "consistent_call (Listing q)" by simp
  from run_in_context[OF this r, of None pre q post] show ?thesis
    unfolding executes_def by auto
qed

lemma all_promise_Cons_Fulfilled:
  "callback_promise cb = Fulfilled r \<Longrightarrow> all_promise cbs = Fulfilled rs
    \<Longrightarrow> all_promise (cb # cbs) = Fulfilled (r # rs)"
  by simp

lemma walk_child_executes_leaf:
  assumes "step_callback [] fs cb = Some (cb', fs', ev)"
  shows "executes (Joining None (pre @ cb # post)) fs
           (Joining (rejection_of (callback_promise cb')) (pre @ cb' # post)) fs'"
proof -
  from step_in_context[OF assms, of pre None post]
  have "step_call [length pre] fs (Joining None (pre @ cb # post))
      = Some (Joining (rejection_of (callback_promise cb')) (pre @ cb' # post), fs', ev)"
    by (simp del: step_call.simps)
  then show ?thesis by (rule executes_step)
qed

lemma rejectedI:
  "executes c0 fs (Joining (Some e) cbs) fs' \<Longrightarrow>
     \<exists>c fs'. executes c0 fs c fs' \<and> call_promise c = Rejected e"
  by (rule exI[of _ "Joining (Some e) cbs"], rule exI[of _ fs']) simp

lemma fulfilledI:
  "executes c0 fs (Joining None (pre @ Returned r # post)) fs' \<Longrightarrow>
     \<exists>cb. executes c0 fs (Joining None (pre @ cb # post)) fs' \<and> callback_promise cb = Fulfilled r"
  by (rule exI[of _ "Returned r"]) simp

lemma walk_schedule:
  "(\<forall>rs fs'. walkAsync fs p = Inr (rs, fs') \<longrightarrow>
      (\<exists>c. executes (Listing p) fs c fs' \<and> call_promise c = Fulfilled rs))
   \<and> (\<forall>e. walkAsync fs p = Inl e \<longrightarrow>
      (\<exists>c fs'. executes (Listing p) fs c fs' \<and> call_promise c = Rejected e))"
  "(\<forall>rs fs'. walk_children fs p ns = Inr (rs, fs') \<longrightarrow>
      (\<forall>pre. \<exists>cbs. executes (Joining None (pre @ map (\<lambda>child. AwaitStat (p @ [child])) ns)) fs
                      (Joining None (pre @ cbs)) fs'
                  \<and> all_promise cbs = Fulfilled rs))
   \<and> (\<forall>e. walk_children fs p ns = Inl e \<longrightarrow>
      (\<forall>pre. \<exists>c fs'. executes (Joining None (pre @ map (\<lambda>child. AwaitStat (p @ [child])) ns)) fs c fs'
                  \<and> call_promise c = Rejected e))"
  "(\<forall>r fs'. walk_child fs p n = Inr (r, fs') \<longrightarrow>
      (\<forall>pre post. \<exists>cb. executes (Joining None (pre @ AwaitStat (p @ [n]) # post)) fs
                      (Joining None (pre @ cb # post)) fs'
                  \<and> callback_promise cb = Fulfilled r))
   \<and> (\<forall>e. walk_child fs p n = Inl e \<longrightarrow>
      (\<forall>pre post. \<exists>c fs'. executes (Joining None (pre @ AwaitStat (p @ [n]) # post)) fs c fs'
                  \<and> call_promise c = Rejected e))"
proof (induction fs p and fs p ns and fs p n rule: walkAsync_walk_children_walk_child.induct)
  case (1 fs dirPath)
  show ?case
  proof (cases "readdir fs dirPath")
    case (Inl e)
    then have "step_call [] fs (Listing dirPath)
        = Some (ListingFailed e, fs, (OpReaddir, dirPath, Some e))"
      by simp
    then have "executes (Listing dirPath) fs (ListingFailed e) fs" by (rule executes_step)
    moreover have "call_promise (ListingFailed e) = Rejected e" by simp
    ultimately show ?thesis using Inl by (auto simp: walkAsync.simps)
  next
    case (Inr children)
    let ?start = "Joining None (map (\<lambda>child. AwaitStat (dirPath @ [child])) children)"
    from Inr have "step_call [] fs (Listing dirPath) = Some (?start, fs, (OpReaddir, dirPath, None))"
      by simp
    then have first: "executes (Listing dirPath) fs ?start fs" by (rule executes_step)
    from Inr have w: "walkAsync fs dirPath = walk_children fs dirPath children"
      by (simp add: walkAsync.simps)
    note IH = "1.IH"[OF Inr]
    show ?thesis
    proof (intro conjI allI impI)
      fix rs fs'
      assume "walkAsync fs dirPath = Inr (rs, fs')"
      with w IH obtain cbs where
        "executes (Joining None ([] @ map (\<lambda>child. AwaitStat (dirPath @ [child])) children)) fs
           (Joining None ([] @ cbs)) fs'" "all_promise cbs = Fulfilled rs"
        by metis
      with first have "executes (Listing dirPath) fs (Joining None cbs) fs'
          \<and> call_promise (Joining None cbs) = Fulfilled rs"
        by (auto intro: executes_trans)
      then show "\<exists>c. executes (Listing dirPath) fs c fs' \<and> call_promise c = Fulfilled rs" ..
    next
      fix e
      assume "walkAsync fs dirPath = Inl e"
      with w IH obtain c fs' where
        "executes (Joining None ([] @ map (\<lambda>child. AwaitStat (dirPath @ [child])) children)) fs c fs'"
        "call_promise c = Rejected e"
        by metis
      with first have "executes (Listing dirPath) fs c fs' \<and> call_promise c = Rejected e"
        by (auto intro: executes_trans)
      then show "\<exists>c fs'. executes (Listing dirPath) fs c fs' \<and> call_promise c = Rejected e"
        by blast
    qed
  qed
next
  case (2 fs dirPath)
  have "\<exists>cbs. executes (Joining None (pre @ [])) fs (Joining None (pre @ cbs)) fs
      \<and> all_promise cbs = Fulfilled []" for pre
    by (rule exI[of _ "[]"]) (simp add: executes_refl)
  then show ?case by simp
next
  case (3 fs dirPath child rest)
  let ?rest = "map (\<lambda>child. AwaitStat (dirPath @ [child])) rest"
  show ?case
  proof (cases "walk_child fs dirPath child")
    case (Inl e)
    with "3.IH"(1) have "\<exists>c fs'. executes (Joining None (pre @ AwaitStat (dirPath @ [child]) # ?rest)) fs c fs'
        \<and> call_promise c = Rejected e" for pre
      by blast
    with Inl show ?thesis by simp
  next
    case (Inr b)
    obtain r fs1 where b: "b = (r, fs1)" by (cases b)
    note IH2 = "3.IH"(2)[OF Inr b[symmetric]]
    from "3.IH"(1) Inr b have first: "\<exists>cb. executes (Joining None (pre @ AwaitStat (dirPath @ [child]) # ?rest)) fs
          (Joining None (pre @ cb # ?rest)) fs1 \<and> callback_promise cb = Fulfilled r" for pre
      by blast
    show ?thesis
    proof (intro conjI allI impI)
      fix rs fs' pre
      assume "walk_children fs dirPath (child # rest) = Inr (rs, fs')"
      with Inr b obtain rs1 where rs1: "walk_children fs1 dirPath rest = Inr (rs1, fs')"
        "rs = r # rs1"
        by (auto split: sum.splits)
      from first[of pre] obtain cb where
        cb: "executes (Joining None (pre @ AwaitStat (dirPath @ [child]) # ?rest)) fs
          (Joining None (pre @ cb # ?rest)) fs1" "callback_promise cb = Fulfilled r"
        by blast
      from IH2 rs1(1) obtain cbs where
        cbs: "executes (Joining None ((pre @ [cb]) @ ?rest)) fs1 (Joining None ((pre @ [cb]) @ cbs)) fs'"
        "all_promise cbs = Fulfilled rs1"
        by blast
      from cb(1) cbs(1) have "executes (Joining None (pre @ map (\<lambda>child. AwaitStat (dirPath @ [child])) (child # rest))) fs
          (Joining None (pre @ cb # cbs)) fs'"
        by (auto intro: executes_trans)
      moreover from cb(2) cbs(2) rs1(2) have "all_promise (cb # cbs) = Fulfilled rs" by simp
      ultimately show "\<exists>cbs. executes (Joining None (pre @ map (\<lambda>child. AwaitStat (dirPath @ [child])) (child # rest))) fs
          (Joining None (pre @ cbs)) fs' \<and> all_promise cbs = Fulfilled rs"
        by blast
    next
      fix e pre
      assume "walk_children fs dirPath (child # rest) = Inl e"
      with Inr b have e: "walk_children fs1 dirPath rest = Inl e"
        by (auto split: sum.splits)
      from first[of pre] obtain cb where
        cb: "executes (Joining None (pre @ AwaitStat (dirPath @ [child]) # ?rest)) fs
          (Joining None (pre @ cb # ?rest)) fs1"
        by blast
      from IH2 e obtain c fs' where
        c: "executes (Joining None ((pre @ [cb]) @ ?rest)) fs1 c fs'" "call_promise c = Rejected e"
        by blast
      from cb c(1) have "executes (Joining None (pre @ map (\<lambda>child. AwaitStat (dirPath @ [child])) (child # rest))) fs c fs'"
        by (auto intro: executes_trans)
      with c(2) show "\<exists>c fs'. executes (Joining None (pre @ map (\<lambda>child. AwaitStat (dirPath @ [child])) (child # rest))) fs c fs'
          \<and> call_promise c = Rejected e"
        by blast
    qed
  qed
next
  case (4 fs dirPath child)
  let ?q = "dirPath @ [child]"
  show ?case
  proof (cases "stat fs ?q")
    case (Inl e)
    then have "step_callback [] fs (AwaitStat ?q) = Some (Thrown e, fs, (OpStat, ?q, Some e))"
      by simp
    from walk_child_executes_leaf[OF this]
    have "executes (Joining None (pre @ AwaitStat ?q # post)) fs
        (Joining (Some e) (pre @ Thrown e # post)) fs" for pre post
      by simp
    then have "\<exists>c fs'. executes (Joining None (pre @ AwaitStat ?q # post)) fs c fs'
              \<and> call_promise c = Rejected e" for pre post
            by (rule rejectedI)
    moreover from Inl have "walk_child fs dirPath child = Inl e"
      by (simp add: walk_child.simps)
    ultimately show ?thesis by simp
  next
    case (Inr st)
    show ?thesis
    proof (cases "isFile st")
      case True
      show ?thesis
      proof (cases "extname ?q = ''.cstemp''")
        case stale: True
        from Inr True stale
        have s1: "step_callback [] fs (AwaitStat ?q) = Some (AwaitRm ?q, fs, (OpStat, ?q, None))"
          by simp
        from walk_child_executes_leaf[OF s1]
        have e1: "executes (Joining None (pre @ AwaitStat ?q # post)) fs
            (Joining None (pre @ AwaitRm ?q # post)) fs" for pre post
          by simp
        show ?thesis
        proof (cases "rm fs ?q")
          case (Inl e)
          then have "step_callback [] fs (AwaitRm ?q) = Some (Thrown e, fs, (OpRm, ?q, Some e))"
            by simp
          from walk_child_executes_leaf[OF this]
          have "executes (Joining None (pre @ AwaitRm ?q # post)) fs
              (Joining (Some e) (pre @ Thrown e # post)) fs" for pre post
            by simp
          with e1 have "executes (Joining None (pre @ AwaitStat ?q # post)) fs
              (Joining (Some e) (pre @ Thrown e # post)) fs" for pre post
            by (blast intro: executes_trans)
          then have "\<exists>c fs'. executes (Joining None (pre @ AwaitStat ?q # post)) fs c fs'
              \<and> call_promise c = Rejected e" for pre post
            by (rule rejectedI)
          moreover from Inr True stale Inl have "walk_child fs dirPath child = Inl e"
            by (simp add: walk_child.simps)
          ultimately show ?thesis by simp
        next
          case rmd: (Inr fs1)
          then have "step_callback [] fs (AwaitRm ?q) = Some (Returned Null, fs1, (OpRm, ?q, None))"
            by simp
          from walk_child_executes_leaf[OF this]
          have "executes (Joining None (pre @ AwaitRm ?q # post)) fs
              (Joining None (pre @ Returned Null # post)) fs1" for pre post
            by simp
          with e1 have "executes (Joining None (pre @ AwaitStat ?q # post)) fs
              (Joining None (pre @ Returned Null # post)) fs1" for pre post
            by (blast intro: executes_trans)
          then have "\<exists>cb. executes (Joining None (pre @ AwaitStat ?q # post)) fs
              (Joining None (pre @ cb # post)) fs1 \<and> callback_promise cb = Fulfilled Null" for pre post
            by (rule fulfilledI)
          moreover from Inr True stale rmd have "walk_child fs dirPath child = Inr (Null, fs1)"
            by (simp add: walk_child.simps)
          ultimately show ?thesis by simp
        qed
      next
        case other: False
        from Inr True other
        have s1: "step_callback [] fs (AwaitStat ?q) = Some (AwaitBinary ?q, fs, (OpStat, ?q, None))"
          by simp
        from walk_child_executes_leaf[OF s1]
        have e1: "executes (Joining None (pre @ AwaitStat ?q # post)) fs
            (Joining None (pre @ AwaitBinary ?q # post)) fs" for pre post
          by simp
        show ?thesis
        proof (cases "isBinaryFile fs ?q")
          case (Inl e)
          then have "step_callback [] fs (AwaitBinary ?q)
              = Some (Thrown e, fs, (OpIsBinaryFile, ?q, Some e))"
            by (simp add: getFilePathIfBinary_def)
          from walk_child_executes_leaf[OF this]
          have "executes (Joining None (pre @ AwaitBinary ?q # post)) fs
              (Joining (Some e) (pre @ Thrown e # post)) fs" for pre post
            by simp
          with e1 have "executes (Joining None (pre @ AwaitStat ?q # post)) fs
              (Joining (Some e) (pre @ Thrown e # post)) fs" for pre post
            by (blast intro: executes_trans)
          then have "\<exists>c fs'. executes (Joining None (pre @ AwaitStat ?q # post)) fs c fs'
              \<and> call_promise c = Rejected e" for pre post
            by (rule rejectedI)
          moreover from Inr True other Inl have "walk_child fs dirPath child = Inl e"
            by (simp add: walk_child.simps getFilePathIfBinary_def)
          ultimately show ?thesis by simp
        next
          case sniffed: (Inr b)
          let ?r = "if b then Item ?q else Null"
          from sniffed have "step_callback [] fs (AwaitBinary ?q)
              = Some (Returned ?r, fs, (OpIsBinaryFile, ?q, None))"
            by (simp add: getFilePathIfBinary_def)
          from walk_child_executes_leaf[OF this]
          have "executes (Joining None (pre @ AwaitBinary ?q # post)) fs
              (Joining None (pre @ Returned ?r # post)) fs" for pre post
            by simp
          with e1 have "executes (Joining None (pre @ AwaitStat ?q # post)) fs
              (Joining None (pre @ Returned ?r # post)) fs" for pre post
            by (blast intro: executes_trans)
          then have "\<exists>cb. executes (Joining None (pre @ AwaitStat ?q # post)) fs
              (Joining None (pre @ cb # post)) fs \<and> callback_promise cb = Fulfilled ?r" for pre post
            by (rule fulfilledI)
          moreover from Inr True other sniffed have "walk_child fs dirPath child = Inr (?r, fs)"
            by (simp add: walk_child.simps getFilePathIfBinary_def)
          ultimately show ?thesis by simp
        qed
      qed
    next
      case False
      show ?thesis
      proof (cases "isDirectory st \<and> \<not> isSymbolicLink st")
        case dir: True
        note IH = "4.IH"[OF refl Inr False dir]
        from Inr False dir
        have s1: "step_callback [] fs (AwaitStat ?q)
            = Some (AwaitWalk ?q (Listing ?q), fs, (OpStat, ?q, None))"
          by simp
        from walk_child_executes_leaf[OF s1]
        have e1: "executes (Joining None (pre @ AwaitStat ?q # post)) fs
            (Joining None (pre @ AwaitWalk ?q (Listing ?q) # post)) fs" for pre post
          by simp
        from Inr False dir have w: "walk_child fs dirPath child =
            (case walkAsync fs ?q of
               Inl e \<Rightarrow> Inl e
             | Inr (walkResult, fs') \<Rightarrow>
                 Inr (Arr (if extname ?q = ''.app'' \<or> extname ?q = ''.framework''
                           then walkResult @ [Item ?q] else walkResult), fs'))"
          by (simp add: walk_child.simps Let_def)
        show ?thesis
        proof (intro conjI allI impI)
          fix r fs' pre post
          assume "walk_child fs dirPath child = Inr (r, fs')"
          with w obtain walkResult where
            wr: "walkAsync fs ?q = Inr (walkResult, fs')"
            "r = Arr (if extname ?q = ''.app'' \<or> extname ?q = ''.framework''
                      then walkResult @ [Item ?q] else walkResult)"
            by (auto split: sum.splits)
          with IH obtain c where
            c: "executes (Listing ?q) fs c fs'" "call_promise c = Fulfilled walkResult"
            by blast
          from executes_in_context[OF c(1), of pre post] c(2)
          have "executes (Joining None (pre @ AwaitWalk ?q (Listing ?q) # post)) fs
              (Joining None (pre @ AwaitWalk ?q c # post)) fs'"
            by simp
          with e1 have "executes (Joining None (pre @ AwaitStat ?q # post)) fs
              (Joining None (pre @ AwaitWalk ?q c # post)) fs'"
            by (blast intro: executes_trans)
          moreover from c(2) wr(2) have "callback_promise (AwaitWalk ?q c) = Fulfilled r"
            by simp
          ultimately show "\<exists>cb. executes (Joining None (pre @ AwaitStat ?q # post)) fs
              (Joining None (pre @ cb # post)) fs' \<and> callback_promise cb = Fulfilled r"
            by blast
        next
          fix e pre post
          assume "walk_child fs dirPath child = Inl e"
          with w have "walkAsync fs ?q = Inl e"
            by (auto split: sum.splits)
          with IH obtain c fs' where
            c: "executes (Listing ?q) fs c fs'" "call_promise c = Rejected e"
            by blast
          from executes_in_context[OF c(1), of pre post] c(2)
          have "executes (Joining None (pre @ AwaitWalk ?q (Listing ?q) # post)) fs
              (Joining (Some e) (pre @ AwaitWalk ?q c # post)) fs'"
            by simp
          with e1 have "executes (Joining None (pre @ AwaitStat ?q # post)) fs
              (Joining (Some e) (pre @ AwaitWalk ?q c # post)) fs'"
            by (blast intro: executes_trans)
          moreover have "call_promise (Joining (Some e) cbs) = Rejected e" for cbs by simp
          ultimately show "\<exists>c fs'. executes (Joining None (pre @ AwaitStat ?q # post)) fs c fs'
              \<and> call_promise c = Rejected e"
            by blast
        qed
      next
        case neither: False
        from Inr False neither
        have s1: "step_callback [] fs (AwaitStat ?q) = Some (Returned Null, fs, (OpStat, ?q, None))"
          by auto
        from walk_child_executes_leaf[OF s1]
        have "executes (Joining None (pre @ AwaitStat ?q # post)) fs
            (Joining None (pre @ Returned Null # post)) fs" for pre post
          by simp
        then have "\<exists>cb. executes (Joining None (pre @ AwaitStat ?q # post)) fs
              (Joining None (pre @ cb # post)) fs \<and> callback_promise cb = Fulfilled Null" for pre post
            by (rule fulfilledI)
        moreover from Inr False neither have "walk_child fs dirPath child = Inr (Null, fs)"
          by (auto simp: walk_child.simps)
        ultimately show ?thesis by simp
      qed
    qed
  qed
qed

lemma walk_is_an_execution:
  "walk fs dirPath = Inr (out, fs') \<Longrightarrow>
     \<exists>c. executes (Listing dirPath) fs c fs' \<and> walk_promise c = Fulfilled out"
  "walk fs dirPath = Inl e \<Longrightarrow>
     \<exists>c fs'. executes (Listing dirPath) fs c fs' \<and> walk_promise c = Rejected e"
proof -
  assume "walk fs dirPath = Inr (out, fs')"
  then obtain rs where "walkAsync fs dirPath = Inr (rs, fs')"
    "out = compactFlattenedList truthy_path rs"
    by (auto simp: walk_def split: sum.splits)
  with walk_schedule(1)[of fs dirPath]
  show "\<exists>c. executes (Listing dirPath) fs c fs' \<and> walk_promise c = Fulfilled out"
    by (auto simp: walk_promise_def)
next
  assume "walk fs dirPath = Inl e"
  then have "walkAsync fs dirPath = Inl e"
    by (auto simp: walk_def split: sum.splits)
  with walk_schedule(1)[of fs dirPath]
  show "\<exists>c fs'. executes (Listing dirPath) fs c fs' \<and> walk_promise c = Rejected e"
    by (auto simp: walk_promise_def)
qed

subsection \<open>The outcome depends on the schedule\<close>

text \<open>
  Whatever the order in which the callbacks complete, \<open>Promise.all\<close> returns their
  contributions in the order of the listing.
\<close>

lemma contributions_in_listing_order:
  "all_promise cbs = Fulfilled rs \<Longrightarrow>
     length rs = length cbs \<and> (\<forall>i<length cbs. callback_promise (cbs ! i) = Fulfilled (rs ! i))"
proof (induction cbs arbitrary: rs)
  case Nil
  then show ?case by simp
next
  case (Cons cb cbs)
  from Cons.prems obtain r rs1 where
    r: "callback_promise cb = Fulfilled r" "all_promise cbs = Fulfilled rs1" "rs = r # rs1"
    by (auto split: promise.splits)
  from Cons.IH[OF r(2)] r(1,3) show ?case
    by (auto simp: nth_Cons split: nat.splits)
qed

text \<open>
  C9 does not hold of the code: the walk is not deterministic.  Two executions of the
  walk of \<open>fs_stale_link\<close> start from the same file system.  In the first the callback of
  \<open>helper\<close> has inspected the content before the callback of \<open>helper.cstemp\<close> removes that
  file, and the walk returns the path of \<open>helper\<close>.  In the second the removal completes
  before the inspection, which then finds nothing, and the walk fails.  The two
  callbacks meet in one file because \<open>helper\<close> is a symbolic link that \<open>stat\<close> and
  \<open>isBinaryFile\<close> follow to \<open>helper.cstemp\<close>.
\<close>

theorem walk_outcome_depends_on_schedule:
  "run [[], [0], [0], [1], [1]] (Listing [''App.app''], fs_stale_link, [])
     = Some (Joining None [Returned (Item [''App.app'', ''helper'']), Returned Null],
             unlink fs_stale_link [''App.app'', ''helper.cstemp''],
             [(OpReaddir, [''App.app''], None),
              (OpStat, [''App.app'', ''helper''], None),
              (OpIsBinaryFile, [''App.app'', ''helper''], None),
              (OpStat, [''App.app'', ''helper.cstemp''], None),
              (OpRm, [''App.app'', ''helper.cstemp''], None)])
   \<and> walk_promise (Joining None [Returned (Item [''App.app'', ''helper'']), Returned Null])
     = Fulfilled [[''App.app'', ''helper'']]
   \<and> run [[], [0], [1], [1], [0]] (Listing [''App.app''], fs_stale_link, [])
     = Some (Joining (Some ENOENT) [Thrown ENOENT, Returned Null],
             unlink fs_stale_link [''App.app'', ''helper.cstemp''],
             [(OpReaddir, [''App.app''], None),
              (OpStat, [''App.app'', ''helper''], None),
              (OpStat, [''App.app'', ''helper.cstemp''], None),
              (OpRm, [''App.app'', ''helper.cstemp''], None),
              (OpIsBinaryFile, [''App.app'', ''helper''], Some ENOENT)])
   \<and> walk_promise (Joining (Some ENOENT) [Thrown ENOENT, Returned Null]) = Rejected ENOENT
   \<and> lstat fs_stale_link [''App.app'', ''helper''] = Inr (Stats False False True)"
  by (simp add: fs_eval fs_stale_link_def walk_promise_def)

end
